theory Spec2Isabelle
  imports Main
begin

section \<open>Numbers\<close>

text \<open>
  The simulator computes with JavaScript numbers. The sizes it is given are integer byte
  counts: \<^verbatim>\<open>handleAddProcessClick\<close> passes a product of two \<^verbatim>\<open>parseInt\<close> results,
  \<^verbatim>\<open>setupInitialState\<close> passes integer literals, and the sizes and addresses of the
  regions derive from these and from the two constants by addition and subtraction. The
  values that are not integers are the infinities, which \<^verbatim>\<open>_findBestFit\<close> and
  \<^verbatim>\<open>_findWorstFit\<close> use as the initial value of their running extremum and which
  \<^verbatim>\<open>parseInt\<close> returns for an over-long digit string, and \<^verbatim>\<open>NaN\<close>, which
  \<^verbatim>\<open>parseInt\<close> returns for text that is not a number. Finite values are modelled as
  unbounded integers: the allocators add and subtract only values within the memory
  size, where the double type is exact. Process ids, counted up from zero, are natural
  numbers.
\<close>

datatype jsnum = NaN | NegInf | Fin int | PosInf

text \<open>\<^verbatim>\<open>a < b\<close> on numbers: false as soon as one side is \<^verbatim>\<open>NaN\<close>.\<close>

fun js_less :: "jsnum \<Rightarrow> jsnum \<Rightarrow> bool" where
  "js_less NaN b = False"
| "js_less a NaN = False"
| "js_less NegInf NegInf = False"
| "js_less NegInf b = True"
| "js_less (Fin x) NegInf = False"
| "js_less (Fin x) (Fin y) = (x < y)"
| "js_less (Fin x) PosInf = True"
| "js_less PosInf b = False"

definition TOTAL_MEMORY :: int where
  "TOTAL_MEMORY = 16 * 1024 * 1024"

definition OS_MEMORY_SIZE :: int where
  "OS_MEMORY_SIZE = 2 * 1024 * 1024"

section \<open>Processes\<close>

text \<open>
  The size a \<^verbatim>\<open>ProcessControlBlock\<close> carries. The constructor is called in
  \<^verbatim>\<open>createProcess\<close> only, behind the test
  \<^verbatim>\<open>isNaN(sizeInBytes) || sizeInBytes <= 0\<close>, so a stored size is a finite number or
  \<^verbatim>\<open>Infinity\<close>; it is never \<^verbatim>\<open>NaN\<close> or \<^verbatim>\<open>-Infinity\<close>.
\<close>

datatype procsize = Bytes int | Unbounded

text \<open>
  \<^verbatim>\<open>class ProcessControlBlock\<close>: \<open>pid\<close> is the field \<^verbatim>\<open>id\<close>, \<open>psize\<close> the field
  \<^verbatim>\<open>size\<close>. \<open>partitionId\<close> is \<^verbatim>\<open>null\<close> or a number: the partition's \<^verbatim>\<open>id\<close> in
  static mode, the block's address in dynamic mode. The display name (derived from the
  id, read by the rendering and the alert texts only) is left out.
\<close>

record pcb =
  pid :: nat
  psize :: procsize
  allocated :: bool
  partitionId :: "int option"

definition ProcessControlBlock :: "nat \<Rightarrow> procsize \<Rightarrow> pcb" where
  "ProcessControlBlock i s = \<lparr>pid = i, psize = s, allocated = False, partitionId = None\<rparr>"

text \<open>\<^verbatim>\<open>block.size >= process.size\<close>: no block size reaches \<^verbatim>\<open>Infinity\<close>.\<close>

fun size_ge :: "int \<Rightarrow> procsize \<Rightarrow> bool" where
  "size_ge b (Bytes n) = (n \<le> b)"
| "size_ge b Unbounded = False"

section \<open>Memory regions\<close>

text \<open>
  A block of the dynamic manager is \<^verbatim>\<open>{address, size, free, processId}\<close>; a partition of
  the static manager has the field \<^verbatim>\<open>id\<close> (here \<open>partId\<close>) on top of these.
  \<open>bsize\<close> is the field \<^verbatim>\<open>size\<close>; \<open>processId\<close> is \<^verbatim>\<open>null\<close> or a process id.
\<close>

record block =
  address :: int
  bsize :: int
  free :: bool
  processId :: "nat option"

record partition = block +
  partId :: nat

text \<open>
  What the operations report: \<^verbatim>\<open>allocate\<close> returns \<^verbatim>\<open>true\<close>, or raises an alert
  and returns \<^verbatim>\<open>false\<close> (the specification's \<open>AllocationFailure\<close>);
  \<^verbatim>\<open>createProcess\<close> raises an alert and returns early on a rejected size
  (\<open>InvalidProcessSize\<close>); reading a field of \<^verbatim>\<open>undefined\<close> throws a
  \<^verbatim>\<open>TypeError\<close>.
\<close>

datatype error = AllocationFailure | InvalidProcessSize | TypeError

datatype result = Success | Failure error

text \<open>
  \<^verbatim>\<open>class MemoryManager\<close> and its subclass \<^verbatim>\<open>DynamicMemoryManager\<close>; a
  \<^verbatim>\<open>StaticMemoryManager\<close> adds no field to the base class.
\<close>

record 'b memoryManager =
  totalSize :: int
  memory :: "'b list"

record 'b dynamicMemoryManager = "'b memoryManager" +
  coalesceEnabled :: bool
  fitAlgorithm :: string

type_synonym staticManager = "partition memoryManager"

type_synonym dynamicManager = "block dynamicMemoryManager"

section \<open>The dynamic manager's fit functions\<close>

text \<open>\<^verbatim>\<open>Array.prototype.findIndex\<close>: the index of the first element that satisfies the
  predicate, or \<open>-1\<close>. The second argument is the index of the list's head.\<close>

fun findIndex :: "('a \<Rightarrow> bool) \<Rightarrow> nat \<Rightarrow> 'a list \<Rightarrow> int" where
  "findIndex P index [] = -1"
| "findIndex P index (x # xs) = (if P x then int index else findIndex P (Suc index) xs)"

definition findFirstFit :: "block list \<Rightarrow> int \<Rightarrow> int" where
  "findFirstFit mem sz = findIndex (\<lambda>block. free block \<and> bsize block \<ge> sz) 0 mem"

text \<open>
  The \<^verbatim>\<open>forEach\<close> of \<^verbatim>\<open>_findBestFit\<close>, from the block at \<open>index\<close> on, with the
  variables \<^verbatim>\<open>bestIndex\<close> and \<^verbatim>\<open>minDiff\<close> passed along.
\<close>

fun bestFitLoop :: "int \<Rightarrow> block list \<Rightarrow> nat \<Rightarrow> int \<Rightarrow> jsnum \<Rightarrow> int" where
  "bestFitLoop sz [] index bestIndex minDiff = bestIndex"
| "bestFitLoop sz (block # rest) index bestIndex minDiff =
     (if free block \<and> bsize block \<ge> sz then
        (let diff = bsize block - sz in
         if js_less (Fin diff) minDiff
         then bestFitLoop sz rest (Suc index) (int index) (Fin diff)
         else bestFitLoop sz rest (Suc index) bestIndex minDiff)
      else bestFitLoop sz rest (Suc index) bestIndex minDiff)"

definition findBestFit :: "block list \<Rightarrow> int \<Rightarrow> int" where
  "findBestFit mem sz = bestFitLoop sz mem 0 (-1) PosInf"

text \<open>The same loop of \<^verbatim>\<open>_findWorstFit\<close>, with \<^verbatim>\<open>worstIndex\<close> and \<^verbatim>\<open>maxDiff\<close>.\<close>

fun worstFitLoop :: "int \<Rightarrow> block list \<Rightarrow> nat \<Rightarrow> int \<Rightarrow> jsnum \<Rightarrow> int" where
  "worstFitLoop sz [] index worstIndex maxDiff = worstIndex"
| "worstFitLoop sz (block # rest) index worstIndex maxDiff =
     (if free block \<and> bsize block \<ge> sz then
        (let diff = bsize block - sz in
         if js_less maxDiff (Fin diff)
         then worstFitLoop sz rest (Suc index) (int index) (Fin diff)
         else worstFitLoop sz rest (Suc index) worstIndex maxDiff)
      else worstFitLoop sz rest (Suc index) worstIndex maxDiff)"

definition findWorstFit :: "block list \<Rightarrow> int \<Rightarrow> int" where
  "findWorstFit mem sz = worstFitLoop sz mem 0 (-1) NegInf"

text \<open>A region qualifies for a request when it is free and large enough.\<close>

definition qualifies :: "int \<Rightarrow> 'a block_scheme \<Rightarrow> bool" where
  "qualifies sz b = (free b \<and> sz \<le> bsize b)"

definition findFit :: "string \<Rightarrow> block list \<Rightarrow> int \<Rightarrow> int" where
  "findFit fitAlg mem sz =
     (if fitAlg = ''first'' then findFirstFit mem sz
      else if fitAlg = ''best'' then findBestFit mem sz
      else if fitAlg = ''worst'' then findWorstFit mem sz
      else -1)"

section \<open>The dynamic manager\<close>

definition newDynamicMemoryManager :: "int \<Rightarrow> bool \<Rightarrow> string \<Rightarrow> dynamicManager" where
  "newDynamicMemoryManager tsize coalesceFlag fitAlg =
     \<lparr>totalSize = tsize,
      memory = [\<lparr>address = OS_MEMORY_SIZE, bsize = tsize - OS_MEMORY_SIZE,
                 free = True, processId = None\<rparr>],
      coalesceEnabled = coalesceFlag, fitAlgorithm = fitAlg\<rparr>"

text \<open>
  \<^verbatim>\<open>DynamicMemoryManager.allocate\<close>. For a process of size \<^verbatim>\<open>Infinity\<close> the test
  \<^verbatim>\<open>block.size >= size\<close> fails on every block, so each fit function returns \<open>-1\<close>
  (as \<^verbatim>\<open>blockIndex\<close> stays for an unknown \<^verbatim>\<open>fitAlgorithm\<close>): that is the first case.
  The selected block is updated in place and the remainder spliced in after it.
\<close>

definition allocateDynamic :: "dynamicManager \<Rightarrow> pcb \<Rightarrow> result \<times> dynamicManager \<times> pcb" where
  "allocateDynamic mm process =
     (case psize process of
        Unbounded \<Rightarrow> (Failure AllocationFailure, mm, process)
      | Bytes n \<Rightarrow>
          (let blockIndex = findFit (fitAlgorithm mm) (memory mm) n in
           if blockIndex \<noteq> -1 then
             (let i = nat blockIndex;
                  block = memory mm ! i;
                  remainingSize = bsize block - n;
                  block' = block\<lparr>bsize := n, free := False, processId := Some (pid process)\<rparr>;
                  process' = process\<lparr>allocated := True, partitionId := Some (address block)\<rparr>;
                  mem' = (memory mm)[i := block'];
                  mem'' = (if remainingSize > 0
                           then take (i + 1) mem' @
                                [\<lparr>address = address block + n, bsize = remainingSize,
                                  free = True, processId = None\<rparr>] @
                                drop (i + 1) mem'
                           else mem')
              in (Success, mm\<lparr>memory := mem''\<rparr>, process'))
           else (Failure AllocationFailure, mm, process)))"

text \<open>
  \<^verbatim>\<open>coalesce\<close>: the loop \<^verbatim>\<open>for (let i = 0; i < this.memory.length - 1; i++)\<close>. After a merge
  the body decrements \<^verbatim>\<open>i\<close> and the loop header increments it again, so the next
  iteration runs at the same index; otherwise it runs at \<open>i + 1\<close>.
\<close>

function coalesceLoop :: "block list \<Rightarrow> nat \<Rightarrow> block list" where
  "coalesceLoop mem i =
     (if i + 1 < length mem then
        (let current = mem ! i; next = mem ! (i + 1) in
         if free current \<and> free next
         then coalesceLoop
                (take (i + 1) (mem[i := current\<lparr>bsize := bsize current + bsize next\<rparr>]) @
                 drop (i + 2) mem) i
         else coalesceLoop mem (i + 1))
      else mem)"
  by pat_completeness auto
termination
  by (relation "measure (\<lambda>(mem, i). length mem - i)") auto

declare coalesceLoop.simps [simp del]

definition coalesce :: "block list \<Rightarrow> block list" where
  "coalesce mem = coalesceLoop mem 0"

text \<open>
  \<^verbatim>\<open>this.memory.find(b => b.processId === processId)\<close> followed by the two assignments to
  the region found: the first region owned by the process is marked free and loses its
  owner; \<open>None\<close> when no region is owned by the process.
\<close>

fun release :: "nat \<Rightarrow> 'a block_scheme list \<Rightarrow> 'a block_scheme list option" where
  "release p [] = None"
| "release p (b # bs) =
     (if processId b = Some p then Some (b\<lparr>free := True, processId := None\<rparr> # bs)
      else map_option ((#) b) (release p bs))"

text \<open>\<^verbatim>\<open>xs.find(P)\<close> followed by assignments to the element found, if any.\<close>

fun updateFirst :: "('a \<Rightarrow> bool) \<Rightarrow> ('a \<Rightarrow> 'a) \<Rightarrow> 'a list \<Rightarrow> 'a list" where
  "updateFirst P f [] = []"
| "updateFirst P f (x # xs) = (if P x then f x # xs else x # updateFirst P f xs)"

definition clearProcess :: "nat \<Rightarrow> pcb list \<Rightarrow> pcb list" where
  "clearProcess p procs =
     updateFirst (\<lambda>process. pid process = p)
       (\<lambda>process. process\<lparr>allocated := False, partitionId := None\<rparr>) procs"

text \<open>
  \<^verbatim>\<open>DynamicMemoryManager.deallocate\<close>; the global \<^verbatim>\<open>processes\<close> it reads and updates is
  passed in and returned.
\<close>

definition deallocateDynamic ::
    "dynamicManager \<Rightarrow> pcb list \<Rightarrow> nat \<Rightarrow> dynamicManager \<times> pcb list" where
  "deallocateDynamic mm procs p =
     (case release p (memory mm) of
        None \<Rightarrow> (mm, procs)
      | Some mem' \<Rightarrow>
          (mm\<lparr>memory := (if coalesceEnabled mm then coalesce mem' else mem')\<rparr>,
           clearProcess p procs))"

section \<open>The static manager\<close>

text \<open>The \<^verbatim>\<open>map\<close> of the constructor, with its running \<^verbatim>\<open>currentAddress\<close>.\<close>

fun makePartitions :: "int list \<Rightarrow> nat \<Rightarrow> int \<Rightarrow> partition list" where
  "makePartitions [] index currentAddress = []"
| "makePartitions (sz # rest) index currentAddress =
     \<lparr>address = currentAddress, bsize = sz, free = True, processId = None, partId = index\<rparr>
       # makePartitions rest (Suc index) (currentAddress + sz)"

definition partitionSizes :: "int list" where
  "partitionSizes = map (\<lambda>s. s * 1024 * 1024) [1, 2, 4, 8, 1]"

definition newStaticMemoryManager :: "int \<Rightarrow> staticManager" where
  "newStaticMemoryManager tsize =
     \<lparr>totalSize = tsize, memory = makePartitions partitionSizes 0 OS_MEMORY_SIZE\<rparr>"

text \<open>
  The \<^verbatim>\<open>for ... of\<close> loop of \<^verbatim>\<open>StaticMemoryManager.allocate\<close>: the partitions with the
  first qualifying one occupied, and the process as updated; \<open>None\<close> when the loop ends
  without returning.
\<close>

fun staticScan :: "partition list \<Rightarrow> pcb \<Rightarrow> (partition list \<times> pcb) option" where
  "staticScan [] process = None"
| "staticScan (part # rest) process =
     (if free part \<and> size_ge (bsize part) (psize process)
      then Some (part\<lparr>free := False, processId := Some (pid process)\<rparr> # rest,
                 process\<lparr>allocated := True, partitionId := Some (int (partId part))\<rparr>)
      else map_option (\<lambda>(rest', process'). (part # rest', process')) (staticScan rest process))"

definition allocateStatic :: "staticManager \<Rightarrow> pcb \<Rightarrow> result \<times> staticManager \<times> pcb" where
  "allocateStatic mm process =
     (case staticScan (memory mm) process of
        Some (mem', process') \<Rightarrow> (Success, mm\<lparr>memory := mem'\<rparr>, process')
      | None \<Rightarrow> (Failure AllocationFailure, mm, process))"

definition deallocateStatic ::
    "staticManager \<Rightarrow> pcb list \<Rightarrow> nat \<Rightarrow> staticManager \<times> pcb list" where
  "deallocateStatic mm procs p =
     (case release p (memory mm) of
        None \<Rightarrow> (mm, procs)
      | Some mem' \<Rightarrow> (mm\<lparr>memory := mem'\<rparr>, clearProcess p procs))"

section \<open>The process registry and the controller\<close>

text \<open>\<^verbatim>\<open>a <= b\<close> on numbers.\<close>

fun js_le :: "jsnum \<Rightarrow> jsnum \<Rightarrow> bool" where
  "js_le NaN b = False"
| "js_le a NaN = False"
| "js_le NegInf b = True"
| "js_le (Fin x) NegInf = False"
| "js_le (Fin x) (Fin y) = (x \<le> y)"
| "js_le (Fin x) PosInf = True"
| "js_le PosInf PosInf = True"
| "js_le PosInf b = False"

definition isNaN :: "jsnum \<Rightarrow> bool" where
  "isNaN x = (x = NaN)"

text \<open>The globals \<^verbatim>\<open>processes\<close> and \<^verbatim>\<open>nextProcessId\<close>, and with them \<^verbatim>\<open>memoryManager\<close>.\<close>

record registry =
  processes :: "pcb list"
  nextProcessId :: nat

datatype manager = StaticManager staticManager | DynamicManager dynamicManager

record simulation = registry +
  memoryManager :: manager

text \<open>\<^verbatim>\<open>processes.push(new ProcessControlBlock(nextProcessId++, size))\<close>.\<close>

definition pushProcess :: "procsize \<Rightarrow> 'a registry_scheme \<Rightarrow> 'a registry_scheme" where
  "pushProcess s r =
     r\<lparr>processes := processes r @ [ProcessControlBlock (nextProcessId r) s],
       nextProcessId := nextProcessId r + 1\<rparr>"

text \<open>
  \<^verbatim>\<open>createProcess(sizeInBytes)\<close>. The argument is the number \<^verbatim>\<open>size * unit\<close> of
  \<^verbatim>\<open>handleAddProcessClick\<close>, or a literal of \<^verbatim>\<open>setupInitialState\<close>. After the test, the
  number is finite and positive or \<^verbatim>\<open>Infinity\<close>; the last case is not reached, the test
  holding for \<^verbatim>\<open>NaN\<close> and \<^verbatim>\<open>-Infinity\<close>.
\<close>

definition createProcess :: "'a registry_scheme \<Rightarrow> jsnum \<Rightarrow> result \<times> 'a registry_scheme" where
  "createProcess r sizeInBytes =
     (if isNaN sizeInBytes \<or> js_le sizeInBytes (Fin 0) then (Failure InvalidProcessSize, r)
      else (case sizeInBytes of
              Fin n \<Rightarrow> (Success, pushProcess (Bytes n) r)
            | PosInf \<Rightarrow> (Success, pushProcess Unbounded r)
            | _ \<Rightarrow> (Failure InvalidProcessSize, r)))"

text \<open>
  What \<^verbatim>\<open>initialize\<close> reads from the page: \<^verbatim>\<open>algorithmSelect.value\<close>,
  \<^verbatim>\<open>coalesceCheckbox.checked\<close> and \<^verbatim>\<open>dynamicAlgorithmSelect.value\<close>.
\<close>

record config =
  algorithm :: string
  coalesceChecked :: bool
  dynamicAlgorithm :: string

definition initialize :: "config \<Rightarrow> 'a registry_scheme \<Rightarrow> simulation" where
  "initialize cfg r =
     \<lparr>processes = map (\<lambda>p. p\<lparr>allocated := False, partitionId := None\<rparr>) (processes r),
      nextProcessId = nextProcessId r,
      memoryManager =
        (if algorithm cfg = ''static'' then StaticManager (newStaticMemoryManager TOTAL_MEMORY)
         else DynamicManager
                (newDynamicMemoryManager TOTAL_MEMORY (coalesceChecked cfg) (dynamicAlgorithm cfg)))\<rparr>"

text \<open>
  \<^verbatim>\<open>setupInitialState\<close>: five default processes (512 KiB, 1.5 MiB, 3 MiB, 700 KiB, 4 MiB),
  then \<^verbatim>\<open>handleAlgorithmChange\<close>, which calls \<^verbatim>\<open>initialize\<close>.
\<close>

definition defaultSizes :: "jsnum list" where
  "defaultSizes = [Fin (512 * 1024), Fin 1572864, Fin (3 * 1024 * 1024), Fin (700 * 1024),
                   Fin (4 * 1024 * 1024)]"

definition setupInitialState :: "config \<Rightarrow> simulation" where
  "setupInitialState cfg =
     initialize cfg
       (foldl (\<lambda>r x. snd (createProcess r x)) \<lparr>processes = [], nextProcessId = 0\<rparr> defaultSizes)"

text \<open>\<^verbatim>\<open>memoryManager.allocate(process)\<close> and \<^verbatim>\<open>memoryManager.deallocate(processId)\<close>, on
  whichever manager is active.\<close>

definition allocate :: "manager \<Rightarrow> pcb \<Rightarrow> result \<times> manager \<times> pcb" where
  "allocate m process =
     (case m of
        StaticManager mm \<Rightarrow>
          (case allocateStatic mm process of (r, mm', process') \<Rightarrow> (r, StaticManager mm', process'))
      | DynamicManager mm \<Rightarrow>
          (case allocateDynamic mm process of (r, mm', process') \<Rightarrow> (r, DynamicManager mm', process')))"

definition deallocate :: "manager \<Rightarrow> pcb list \<Rightarrow> nat \<Rightarrow> manager \<times> pcb list" where
  "deallocate m procs p =
     (case m of
        StaticManager mm \<Rightarrow>
          (case deallocateStatic mm procs p of (mm', procs') \<Rightarrow> (StaticManager mm', procs'))
      | DynamicManager mm \<Rightarrow>
          (case deallocateDynamic mm procs p of (mm', procs') \<Rightarrow> (DynamicManager mm', procs')))"

text \<open>
  \<^verbatim>\<open>handleProcessListClick\<close>, for a click on a button of the process list: the button
  carries the process id (\<^verbatim>\<open>data-id\<close>) and the class \<^verbatim>\<open>allocate\<close> or \<^verbatim>\<open>deallocate\<close>.
  \<^verbatim>\<open>allocate\<close> updates the process object it is given, which is the registry's own
  object; for an id that is not in the registry it is given \<^verbatim>\<open>undefined\<close>, and reading
  its fields throws.
\<close>

datatype button = AllocateButton | DeallocateButton

definition handleProcessListClick :: "simulation \<Rightarrow> nat \<Rightarrow> button \<Rightarrow> result \<times> simulation" where
  "handleProcessListClick st processId' cls =
     (case cls of
        AllocateButton \<Rightarrow>
          (case find (\<lambda>p. pid p = processId') (processes st) of
             None \<Rightarrow> (Failure TypeError, st)
           | Some process \<Rightarrow>
               (case allocate (memoryManager st) process of
                  (r, m', process') \<Rightarrow>
                    (r, st\<lparr>processes := updateFirst (\<lambda>p. pid p = processId') (\<lambda>_. process')
                                           (processes st),
                           memoryManager := m'\<rparr>)))
      | DeallocateButton \<Rightarrow>
          (case deallocate (memoryManager st) (processes st) processId' of
             (m', procs') \<Rightarrow> (Success, st\<lparr>processes := procs', memoryManager := m'\<rparr>)))"

text \<open>
  The states the program reaches. \<^verbatim>\<open>renderProcessList\<close> runs after every change and
  draws, for each process, one button: of class \<^verbatim>\<open>deallocate\<close> when the process is
  allocated, of class \<^verbatim>\<open>allocate\<close> otherwise. So a click reaches
  \<^verbatim>\<open>handleProcessListClick\<close> with the id of a registered process and the class that its
  allocation flag gives. The other events are a new process (\<^verbatim>\<open>handleAddProcessClick\<close>)
  and a reset or a change of the options (\<^verbatim>\<open>initialize\<close>).
\<close>

inductive reachable :: "simulation \<Rightarrow> bool" where
  start: "reachable (setupInitialState cfg)"
| addProcess: "reachable st \<Longrightarrow> reachable (snd (createProcess st x))"
| reset: "reachable st \<Longrightarrow> reachable (initialize cfg st)"
| click: "reachable st \<Longrightarrow> p \<in> set (processes st) \<Longrightarrow>
          reachable (snd (handleProcessListClick st (pid p)
                            (if allocated p then DeallocateButton else AllocateButton)))"

section \<open>Properties of a region list\<close>

text \<open>The bytes a region covers, and the properties of a layout.\<close>

definition extent :: "'a block_scheme \<Rightarrow> int set" where
  "extent b = {address b ..< address b + bsize b}"

definition ascending :: "'a block_scheme list \<Rightarrow> bool" where
  "ascending mem = sorted_wrt (\<lambda>a b. address a < address b) mem"

definition nonOverlapping :: "'a block_scheme list \<Rightarrow> bool" where
  "nonOverlapping mem = sorted_wrt (\<lambda>a b. address a + bsize a \<le> address b) mem"

fun contiguous :: "'a block_scheme list \<Rightarrow> bool" where
  "contiguous (a # b # rest) = (address a + bsize a = address b \<and> contiguous (b # rest))"
| "contiguous mem = True"

definition positiveSizes :: "'a block_scheme list \<Rightarrow> bool" where
  "positiveSizes mem = list_all (\<lambda>b. 0 < bsize b) mem"

definition covers :: "'a block_scheme list \<Rightarrow> int \<Rightarrow> int \<Rightarrow> bool" where
  "covers mem lo hi = (\<Union> (set (map extent mem)) = {lo ..< hi})"

text \<open>No two neighbours of the list are both free.\<close>

fun noAdjacentFree :: "'a block_scheme list \<Rightarrow> bool" where
  "noAdjacentFree (a # b # rest) = (\<not> (free a \<and> free b) \<and> noAdjacentFree (b # rest))"
| "noAdjacentFree mem = True"

text \<open>The regions a process owns, in list order.\<close>

definition owned :: "nat \<Rightarrow> 'a block_scheme list \<Rightarrow> 'a block_scheme list" where
  "owned p mem = filter (\<lambda>b. processId b = Some p) mem"

text \<open>A region fits a process when it is free and \<^verbatim>\<open>region.size >= process.size\<close>.\<close>

definition fits :: "procsize \<Rightarrow> 'a block_scheme \<Rightarrow> bool" where
  "fits s b = (free b \<and> size_ge (bsize b) s)"

text \<open>
  The list \<^verbatim>\<open>coalesce\<close> computes, by recursion on the list: a free block absorbs its
  right neighbour as long as that one is free too. (A device of the proofs; the manager
  runs \<open>coalesceLoop\<close>.)
\<close>

fun mergeFree :: "block list \<Rightarrow> block list" where
  "mergeFree (a # b # rest) =
     (if free a \<and> free b then mergeFree (a\<lparr>bsize := bsize a + bsize b\<rparr> # rest)
      else a # mergeFree (b # rest))"
| "mergeFree mem = mem"

section \<open>Ownership\<close>

text \<open>The ids of the owning processes, in list order; a region list is consistent when
  its free regions are exactly those without an owner.\<close>

fun ownerIds :: "'a block_scheme list \<Rightarrow> nat list" where
  "ownerIds [] = []"
| "ownerIds (b # bs) = (case processId b of None \<Rightarrow> ownerIds bs | Some p \<Rightarrow> p # ownerIds bs)"

definition consistent :: "'a block_scheme list \<Rightarrow> bool" where
  "consistent mem = list_all (\<lambda>b. free b \<longleftrightarrow> processId b = None) mem"

text \<open>
  The ownership invariant of a state: the region list is consistent, no process owns two
  regions, every owner is a registered id, and a registered process is flagged allocated
  exactly when it owns a region.
\<close>

definition ownership :: "'a block_scheme list \<Rightarrow> pcb list \<Rightarrow> nat \<Rightarrow> bool" where
  "ownership mem procs n =
     (consistent mem \<and> distinct (ownerIds mem) \<and> list_all (\<lambda>p. p < n) (ownerIds mem) \<and>
      list_all (\<lambda>process. allocated process \<longleftrightarrow> pid process \<in> set (ownerIds mem)) procs)"

text \<open>The sizes \<^verbatim>\<open>createProcess\<close> lets through.\<close>

fun validSize :: "procsize \<Rightarrow> bool" where
  "validSize (Bytes n) = (0 < n)"
| "validSize Unbounded = True"

text \<open>The layout of the dynamic manager's list: the blocks, each of positive size, follow
  one another from \<open>lo\<close> up to \<open>hi\<close>.\<close>

fun chain :: "int \<Rightarrow> 'a block_scheme list \<Rightarrow> int \<Rightarrow> bool" where
  "chain lo [] hi = (lo = hi)"
| "chain lo (b # bs) hi = (address b = lo \<and> 0 < bsize b \<and> chain (lo + bsize b) bs hi)"

text \<open>
  The invariant of the reachable states: the registry holds the ids \<open>0, 1, ...\<close> in order,
  every registered size passed \<^verbatim>\<open>createProcess\<close>, ownership is as above; in static
  mode the partitions follow one another from the end of the operating system's part, over
  the sum of their sizes; in dynamic mode the blocks tile the memory after the operating
  system's part and, with coalescing enabled, no two neighbours are free.
\<close>

definition invariant :: "simulation \<Rightarrow> bool" where
  "invariant st =
     (map pid (processes st) = [0..<nextProcessId st] \<and>
      list_all (\<lambda>p. validSize (psize p)) (processes st) \<and>
      (case memoryManager st of
         StaticManager mm \<Rightarrow>
           ownership (memory mm) (processes st) (nextProcessId st) \<and>
           chain OS_MEMORY_SIZE (memory mm) (OS_MEMORY_SIZE + sum_list partitionSizes)
       | DynamicManager mm \<Rightarrow>
           ownership (memory mm) (processes st) (nextProcessId st) \<and>
           chain OS_MEMORY_SIZE (memory mm) TOTAL_MEMORY \<and>
           (coalesceEnabled mm \<longrightarrow> noAdjacentFree (memory mm))))"
section \<open>Example states\<close>

text \<open>Free blocks of 512 KiB, 2 MiB and 1 MiB at increasing addresses.\<close>

definition exampleBlocks :: "block list" where
  "exampleBlocks =
     [\<lparr>address = 2097152, bsize = 512 * 1024, free = True, processId = None\<rparr>,
      \<lparr>address = 2621440, bsize = 2 * 1024 * 1024, free = True, processId = None\<rparr>,
      \<lparr>address = 4718592, bsize = 1024 * 1024, free = True, processId = None\<rparr>]"


text \<open>Two free blocks of 1 MiB around an occupied block of 2 MiB: a tie for every request
  of at most 1 MiB.\<close>

definition tiedBlocks :: "block list" where
  "tiedBlocks =
     [\<lparr>address = 2097152, bsize = 1024 * 1024, free = True, processId = None\<rparr>,
      \<lparr>address = 3145728, bsize = 2 * 1024 * 1024, free = False, processId = Some 0\<rparr>,
      \<lparr>address = 5242880, bsize = 1024 * 1024, free = True, processId = None\<rparr>]"


text \<open>A dynamic manager as constructed, with coalescing and best fit.\<close>

definition freshManager :: dynamicManager where
  "freshManager = newDynamicMemoryManager TOTAL_MEMORY True ''best''"


text \<open>An occupied block, three free neighbours, an occupied block and two free ones.\<close>

definition fragmented :: "block list" where
  "fragmented =
     [\<lparr>address = 2097152, bsize = 1048576, free = False, processId = Some 0\<rparr>,
      \<lparr>address = 3145728, bsize = 1048576, free = True, processId = None\<rparr>,
      \<lparr>address = 4194304, bsize = 2097152, free = True, processId = None\<rparr>,
      \<lparr>address = 6291456, bsize = 1048576, free = True, processId = None\<rparr>,
      \<lparr>address = 7340032, bsize = 1048576, free = False, processId = Some 3\<rparr>,
      \<lparr>address = 8388608, bsize = 4194304, free = True, processId = None\<rparr>,
      \<lparr>address = 12582912, bsize = 4194304, free = True, processId = None\<rparr>]"

definition MiB :: int where "MiB = 1024 * 1024"

text \<open>A static manager as constructed.\<close>

definition staticFresh :: staticManager where
  "staticFresh = newStaticMemoryManager TOTAL_MEMORY"


text \<open>The registry before any process is created, and the page set to static mode.\<close>

definition emptyRegistry :: registry where
  "emptyRegistry = \<lparr>processes = [], nextProcessId = 0\<rparr>"

definition staticConfig :: config where
  "staticConfig = \<lparr>algorithm = ''static'', coalesceChecked = False, dynamicAlgorithm = ''first''\<rparr>"


text \<open>
  A run in dynamic mode with coalescing and first fit: the state at start; process 0
  (512 KiB) allocated; process 1 (1.5 MiB) allocated; process 0 deallocated, which leaves
  a free block of 512 KiB in front of the block of process 1.
\<close>

definition dynamicConfig :: config where
  "dynamicConfig = \<lparr>algorithm = ''dynamic'', coalesceChecked = True, dynamicAlgorithm = ''first''\<rparr>"

definition run0 :: simulation where
  "run0 = setupInitialState dynamicConfig"

definition run1 :: simulation where
  "run1 = snd (handleProcessListClick run0 0 AllocateButton)"

definition run2 :: simulation where
  "run2 = snd (handleProcessListClick run1 1 AllocateButton)"

definition run3 :: simulation where
  "run3 = snd (handleProcessListClick run2 0 DeallocateButton)"

definition defaultProcesses :: "pcb list" where
  "defaultProcesses =
     [\<lparr>pid = 0, psize = Bytes 524288, allocated = False, partitionId = None\<rparr>,
      \<lparr>pid = 1, psize = Bytes 1572864, allocated = False, partitionId = None\<rparr>,
      \<lparr>pid = 2, psize = Bytes 3145728, allocated = False, partitionId = None\<rparr>,
      \<lparr>pid = 3, psize = Bytes 716800, allocated = False, partitionId = None\<rparr>,
      \<lparr>pid = 4, psize = Bytes 4194304, allocated = False, partitionId = None\<rparr>]"

definition run3Manager :: dynamicManager where
  "run3Manager =
     \<lparr>totalSize = 16777216,
      memory = [\<lparr>address = 2097152, bsize = 524288, free = True, processId = None\<rparr>,
                \<lparr>address = 2621440, bsize = 1572864, free = False, processId = Some 1\<rparr>,
                \<lparr>address = 4194304, bsize = 12582912, free = True, processId = None\<rparr>],
      coalesceEnabled = True, fitAlgorithm = ''first''\<rparr>"

text \<open>The dynamic manager after process 0 (512 KiB) was allocated once, and after
  \<^verbatim>\<open>allocate\<close> was called for it a second time.\<close>

definition onceManager :: dynamicManager where
  "onceManager =
     \<lparr>totalSize = 16777216,
      memory = [\<lparr>address = 2097152, bsize = 524288, free = False, processId = Some 0\<rparr>,
                \<lparr>address = 2621440, bsize = 14155776, free = True, processId = None\<rparr>],
      coalesceEnabled = True, fitAlgorithm = ''first''\<rparr>"

definition twiceManager :: dynamicManager where
  "twiceManager =
     \<lparr>totalSize = 16777216,
      memory = [\<lparr>address = 2097152, bsize = 524288, free = False, processId = Some 0\<rparr>,
                \<lparr>address = 2621440, bsize = 524288, free = False, processId = Some 0\<rparr>,
                \<lparr>address = 3145728, bsize = 13631488, free = True, processId = None\<rparr>],
      coalesceEnabled = True, fitAlgorithm = ''first''\<rparr>"

definition allocatedProcess :: pcb where
  "allocatedProcess = \<lparr>pid = 0, psize = Bytes 524288, allocated = True, partitionId = Some 2097152\<rparr>"
section \<open>The fit functions select as specified\<close>

lemma js_less_Fin_trans: "js_less (Fin a) (Fin b) \<Longrightarrow> js_less (Fin b) m \<Longrightarrow> js_less (Fin a) m"
  by (cases m) auto

lemma js_less_Fin_not: "js_less (Fin a) m \<Longrightarrow> \<not> js_less (Fin b) m \<Longrightarrow> a < b"
  by (cases m) auto

lemma js_less_Fin_not': "js_less m (Fin a) \<Longrightarrow> \<not> js_less m (Fin b) \<Longrightarrow> b < a"
  by (cases m) auto

lemma js_less_Fin_trans': "js_less m (Fin b) \<Longrightarrow> js_less (Fin b) (Fin a) \<Longrightarrow> js_less m (Fin a)"
  by (cases m) auto

lemma bestFitLoop_spec:
  "(bestFitLoop sz mem k best minD = best \<and>
      (\<forall>j<length mem. qualifies sz (mem ! j) \<longrightarrow> \<not> js_less (Fin (bsize (mem ! j) - sz)) minD))
   \<or> (\<exists>j<length mem. bestFitLoop sz mem k best minD = int (k + j) \<and> qualifies sz (mem ! j) \<and>
        js_less (Fin (bsize (mem ! j) - sz)) minD \<and>
        (\<forall>i<length mem. qualifies sz (mem ! i) \<longrightarrow> bsize (mem ! j) \<le> bsize (mem ! i)) \<and>
        (\<forall>i<j. qualifies sz (mem ! i) \<longrightarrow> bsize (mem ! j) < bsize (mem ! i)))"
proof (induction mem arbitrary: k best minD)
  case Nil
  then show ?case by simp
next
  case (Cons b rest)
  show ?case
  proof (cases "qualifies sz b \<and> js_less (Fin (bsize b - sz)) minD")
    case True
    then have step: "bestFitLoop sz (b # rest) k best minD = bestFitLoop sz rest (Suc k) (int k) (Fin (bsize b - sz))"
      by (simp add: qualifies_def)
    from Cons.IH[of "Suc k" "int k" "Fin (bsize b - sz)"]
    show ?thesis
    proof (elim disjE conjE exE)
      assume r: "bestFitLoop sz rest (Suc k) (int k) (Fin (bsize b - sz)) = int k"
        and none: "\<forall>j<length rest. qualifies sz (rest ! j) \<longrightarrow> \<not> js_less (Fin (bsize (rest ! j) - sz)) (Fin (bsize b - sz))"
      have "\<forall>i<length (b # rest). qualifies sz ((b # rest) ! i) \<longrightarrow> bsize b \<le> bsize ((b # rest) ! i)"
        using none by (auto simp: All_less_Suc2)
      with True step r show ?thesis
        by (intro disjI2 exI[of _ 0]) simp
    next
      fix j
      assume j: "j < length rest"
        and r: "bestFitLoop sz rest (Suc k) (int k) (Fin (bsize b - sz)) = int (Suc k + j)"
        and q: "qualifies sz (rest ! j)"
        and lt: "js_less (Fin (bsize (rest ! j) - sz)) (Fin (bsize b - sz))"
        and mn: "\<forall>i<length rest. qualifies sz (rest ! i) \<longrightarrow> bsize (rest ! j) \<le> bsize (rest ! i)"
        and fst: "\<forall>i<j. qualifies sz (rest ! i) \<longrightarrow> bsize (rest ! j) < bsize (rest ! i)"
      have lt': "js_less (Fin (bsize (rest ! j) - sz)) minD"
        using lt True js_less_Fin_trans by blast
      have mn': "\<forall>i<length (b # rest). qualifies sz ((b # rest) ! i) \<longrightarrow> bsize (rest ! j) \<le> bsize ((b # rest) ! i)"
        using mn lt by (auto simp: All_less_Suc2)
      have fst': "\<forall>i<Suc j. qualifies sz ((b # rest) ! i) \<longrightarrow> bsize (rest ! j) < bsize ((b # rest) ! i)"
        using fst lt by (auto simp: All_less_Suc2)
      show ?thesis
        using j r q lt' mn' fst' step
        by (intro disjI2 exI[of _ "Suc j"]) simp
    qed
  next
    case False
    then have step: "bestFitLoop sz (b # rest) k best minD = bestFitLoop sz rest (Suc k) best minD"
      by (auto simp: qualifies_def Let_def)
    from Cons.IH[of "Suc k" best minD]
    show ?thesis
    proof (elim disjE conjE exE)
      assume r: "bestFitLoop sz rest (Suc k) best minD = best"
        and none: "\<forall>j<length rest. qualifies sz (rest ! j) \<longrightarrow> \<not> js_less (Fin (bsize (rest ! j) - sz)) minD"
      have "\<forall>j<length (b # rest). qualifies sz ((b # rest) ! j) \<longrightarrow> \<not> js_less (Fin (bsize ((b # rest) ! j) - sz)) minD"
        using none False by (auto simp: All_less_Suc2)
      with step r show ?thesis by simp
    next
      fix j
      assume j: "j < length rest"
        and r: "bestFitLoop sz rest (Suc k) best minD = int (Suc k + j)"
        and q: "qualifies sz (rest ! j)"
        and lt: "js_less (Fin (bsize (rest ! j) - sz)) minD"
        and mn: "\<forall>i<length rest. qualifies sz (rest ! i) \<longrightarrow> bsize (rest ! j) \<le> bsize (rest ! i)"
        and fst: "\<forall>i<j. qualifies sz (rest ! i) \<longrightarrow> bsize (rest ! j) < bsize (rest ! i)"
      have b: "qualifies sz b \<Longrightarrow> bsize (rest ! j) < bsize b"
        using False lt js_less_Fin_not[of "bsize (rest ! j) - sz" minD "bsize b - sz"] by auto
      have mn': "\<forall>i<length (b # rest). qualifies sz ((b # rest) ! i) \<longrightarrow> bsize (rest ! j) \<le> bsize ((b # rest) ! i)"
        using mn b by (auto simp: All_less_Suc2)
      have fst': "\<forall>i<Suc j. qualifies sz ((b # rest) ! i) \<longrightarrow> bsize (rest ! j) < bsize ((b # rest) ! i)"
        using fst b by (auto simp: All_less_Suc2)
      show ?thesis
        using j r q lt mn' fst' step
        by (intro disjI2 exI[of _ "Suc j"]) simp
    qed
  qed
qed


lemma worstFitLoop_spec:
  "(worstFitLoop sz mem k worst maxD = worst \<and>
      (\<forall>j<length mem. qualifies sz (mem ! j) \<longrightarrow> \<not> js_less maxD (Fin (bsize (mem ! j) - sz))))
   \<or> (\<exists>j<length mem. worstFitLoop sz mem k worst maxD = int (k + j) \<and> qualifies sz (mem ! j) \<and>
        js_less maxD (Fin (bsize (mem ! j) - sz)) \<and>
        (\<forall>i<length mem. qualifies sz (mem ! i) \<longrightarrow> bsize (mem ! i) \<le> bsize (mem ! j)) \<and>
        (\<forall>i<j. qualifies sz (mem ! i) \<longrightarrow> bsize (mem ! i) < bsize (mem ! j)))"
proof (induction mem arbitrary: k worst maxD)
  case Nil
  then show ?case by simp
next
  case (Cons b rest)
  show ?case
  proof (cases "qualifies sz b \<and> js_less maxD (Fin (bsize b - sz))")
    case True
    then have step: "worstFitLoop sz (b # rest) k worst maxD =
        worstFitLoop sz rest (Suc k) (int k) (Fin (bsize b - sz))"
      by (simp add: qualifies_def)
    from Cons.IH[of "Suc k" "int k" "Fin (bsize b - sz)"]
    show ?thesis
    proof (elim disjE conjE exE)
      assume r: "worstFitLoop sz rest (Suc k) (int k) (Fin (bsize b - sz)) = int k"
        and none: "\<forall>j<length rest. qualifies sz (rest ! j) \<longrightarrow>
                     \<not> js_less (Fin (bsize b - sz)) (Fin (bsize (rest ! j) - sz))"
      have "\<forall>i<length (b # rest). qualifies sz ((b # rest) ! i) \<longrightarrow> bsize ((b # rest) ! i) \<le> bsize b"
        using none by (auto simp: All_less_Suc2)
      with True step r show ?thesis
        by (intro disjI2 exI[of _ 0]) simp
    next
      fix j
      assume j: "j < length rest"
        and r: "worstFitLoop sz rest (Suc k) (int k) (Fin (bsize b - sz)) = int (Suc k + j)"
        and q: "qualifies sz (rest ! j)"
        and lt: "js_less (Fin (bsize b - sz)) (Fin (bsize (rest ! j) - sz))"
        and mx: "\<forall>i<length rest. qualifies sz (rest ! i) \<longrightarrow> bsize (rest ! i) \<le> bsize (rest ! j)"
        and fst: "\<forall>i<j. qualifies sz (rest ! i) \<longrightarrow> bsize (rest ! i) < bsize (rest ! j)"
      have lt': "js_less maxD (Fin (bsize (rest ! j) - sz))"
        using lt True js_less_Fin_trans' by blast
      have mx': "\<forall>i<length (b # rest). qualifies sz ((b # rest) ! i) \<longrightarrow>
                   bsize ((b # rest) ! i) \<le> bsize (rest ! j)"
        using mx lt by (auto simp: All_less_Suc2)
      have fst': "\<forall>i<Suc j. qualifies sz ((b # rest) ! i) \<longrightarrow> bsize ((b # rest) ! i) < bsize (rest ! j)"
        using fst lt by (auto simp: All_less_Suc2)
      show ?thesis
        using j r q lt' mx' fst' step
        by (intro disjI2 exI[of _ "Suc j"]) simp
    qed
  next
    case False
    then have step: "worstFitLoop sz (b # rest) k worst maxD = worstFitLoop sz rest (Suc k) worst maxD"
      by (auto simp: qualifies_def Let_def)
    from Cons.IH[of "Suc k" worst maxD]
    show ?thesis
    proof (elim disjE conjE exE)
      assume r: "worstFitLoop sz rest (Suc k) worst maxD = worst"
        and none: "\<forall>j<length rest. qualifies sz (rest ! j) \<longrightarrow>
                     \<not> js_less maxD (Fin (bsize (rest ! j) - sz))"
      have "\<forall>j<length (b # rest). qualifies sz ((b # rest) ! j) \<longrightarrow>
              \<not> js_less maxD (Fin (bsize ((b # rest) ! j) - sz))"
        using none False by (auto simp: All_less_Suc2)
      with step r show ?thesis by simp
    next
      fix j
      assume j: "j < length rest"
        and r: "worstFitLoop sz rest (Suc k) worst maxD = int (Suc k + j)"
        and q: "qualifies sz (rest ! j)"
        and lt: "js_less maxD (Fin (bsize (rest ! j) - sz))"
        and mx: "\<forall>i<length rest. qualifies sz (rest ! i) \<longrightarrow> bsize (rest ! i) \<le> bsize (rest ! j)"
        and fst: "\<forall>i<j. qualifies sz (rest ! i) \<longrightarrow> bsize (rest ! i) < bsize (rest ! j)"
      have b: "qualifies sz b \<Longrightarrow> bsize b < bsize (rest ! j)"
        using False lt js_less_Fin_not'[of maxD "bsize (rest ! j) - sz" "bsize b - sz"] by auto
      have mx': "\<forall>i<length (b # rest). qualifies sz ((b # rest) ! i) \<longrightarrow>
                   bsize ((b # rest) ! i) \<le> bsize (rest ! j)"
        using mx b by (auto simp: All_less_Suc2)
      have fst': "\<forall>i<Suc j. qualifies sz ((b # rest) ! i) \<longrightarrow> bsize ((b # rest) ! i) < bsize (rest ! j)"
        using fst b by (auto simp: All_less_Suc2)
      show ?thesis
        using j r q lt mx' fst' step
        by (intro disjI2 exI[of _ "Suc j"]) simp
    qed
  qed
qed

lemma findIndex_spec:
  "(findIndex P k xs = -1 \<and> (\<forall>j<length xs. \<not> P (xs ! j)))
   \<or> (\<exists>j<length xs. findIndex P k xs = int (k + j) \<and> P (xs ! j) \<and> (\<forall>i<j. \<not> P (xs ! i)))"
proof (induction xs arbitrary: k)
  case Nil
  then show ?case by simp
next
  case (Cons x xs)
  show ?case
  proof (cases "P x")
    case True
    then show ?thesis by (intro disjI2 exI[of _ 0]) simp
  next
    case False
    from Cons.IH[of "Suc k"] show ?thesis
    proof (elim disjE conjE exE)
      assume "findIndex P (Suc k) xs = - 1" "\<forall>j<length xs. \<not> P (xs ! j)"
      with False show ?thesis by (auto simp: All_less_Suc2)
    next
      fix j assume "j < length xs" "findIndex P (Suc k) xs = int (Suc k + j)" "P (xs ! j)"
        "\<forall>i<j. \<not> P (xs ! i)"
      with False show ?thesis
        by (intro disjI2 exI[of _ "Suc j"]) (auto simp: All_less_Suc2)
    qed
  qed
qed

text \<open>What each fit function returns: \<open>-1\<close> when no block qualifies, else the index of a
  qualifying block.\<close>

lemma findFirstFit_cases:
  "(findFirstFit mem sz = -1 \<and> (\<forall>j<length mem. \<not> qualifies sz (mem ! j)))
   \<or> (\<exists>j<length mem. findFirstFit mem sz = int j \<and> qualifies sz (mem ! j) \<and>
         (\<forall>i<j. \<not> qualifies sz (mem ! i)))"
  using findIndex_spec[of "\<lambda>block. free block \<and> bsize block \<ge> sz" 0 mem]
  by (simp add: findFirstFit_def qualifies_def)

lemma findBestFit_cases:
  "(findBestFit mem sz = -1 \<and> (\<forall>j<length mem. \<not> qualifies sz (mem ! j)))
   \<or> (\<exists>j<length mem. findBestFit mem sz = int j \<and> qualifies sz (mem ! j) \<and>
        (\<forall>i<length mem. qualifies sz (mem ! i) \<longrightarrow> bsize (mem ! j) \<le> bsize (mem ! i)) \<and>
        (\<forall>i<j. qualifies sz (mem ! i) \<longrightarrow> bsize (mem ! j) < bsize (mem ! i)))"
  using bestFitLoop_spec[of sz mem 0 "-1" PosInf]
  by (simp add: findBestFit_def)

lemma findWorstFit_cases:
  "(findWorstFit mem sz = -1 \<and> (\<forall>j<length mem. \<not> qualifies sz (mem ! j)))
   \<or> (\<exists>j<length mem. findWorstFit mem sz = int j \<and> qualifies sz (mem ! j) \<and>
        (\<forall>i<length mem. qualifies sz (mem ! i) \<longrightarrow> bsize (mem ! i) \<le> bsize (mem ! j)) \<and>
        (\<forall>i<j. qualifies sz (mem ! i) \<longrightarrow> bsize (mem ! i) < bsize (mem ! j)))"
  using worstFitLoop_spec[of sz mem 0 "-1" NegInf]
  by (simp add: findWorstFit_def)


lemma ascending_nth:
  "ascending mem \<Longrightarrow> i \<le> j \<Longrightarrow> j < length mem \<Longrightarrow> address (mem ! i) \<le> address (mem ! j)"
  unfolding ascending_def
  by (cases "i = j") (auto simp: sorted_wrt_iff_nth_less less_imp_le)

text \<open>
  Claim C3. For every block list and every requested size, \<^verbatim>\<open>_findBestFit\<close> returns \<open>-1\<close>
  exactly when no free block is large enough; otherwise it returns the index of a
  qualifying block whose difference \<open>size - requested\<close> is minimal among the qualifying
  blocks, and among the qualifying blocks that attain this minimum it is the one of lowest
  index, hence, on a list in ascending address order, of lowest address. With free blocks
  of 512 KiB, 2 MiB and 1 MiB in this order and a request of 600 KiB, it returns the index
  of the 1 MiB block.
\<close>

theorem findBestFit_selects:
  "(findBestFit mem sz = -1 \<longleftrightarrow> (\<forall>b\<in>set mem. \<not> qualifies sz b)) \<and>
   (findBestFit mem sz \<noteq> -1 \<longrightarrow>
      (\<exists>i<length mem. findBestFit mem sz = int i \<and> qualifies sz (mem ! i) \<and>
         (\<forall>j<length mem. qualifies sz (mem ! j) \<longrightarrow>
            bsize (mem ! i) - sz \<le> bsize (mem ! j) - sz) \<and>
         (\<forall>j<length mem. qualifies sz (mem ! j) \<and> bsize (mem ! j) - sz = bsize (mem ! i) - sz \<longrightarrow>
            i \<le> j \<and> (ascending mem \<longrightarrow> address (mem ! i) \<le> address (mem ! j))))) \<and>
   (free b1 \<and> free b2 \<and> free b3 \<and> bsize b1 = 512 * 1024 \<and> bsize b2 = 2 * 1024 * 1024 \<and>
    bsize b3 = 1024 * 1024 \<longrightarrow> findBestFit [b1, b2, b3] (600 * 1024) = 2)"
proof (intro conjI)
  show "findBestFit mem sz = -1 \<longleftrightarrow> (\<forall>b\<in>set mem. \<not> qualifies sz b)"
    using findBestFit_cases[of mem sz] by (auto simp: all_set_conv_all_nth)
next
  show "findBestFit mem sz \<noteq> -1 \<longrightarrow>
      (\<exists>i<length mem. findBestFit mem sz = int i \<and> qualifies sz (mem ! i) \<and>
         (\<forall>j<length mem. qualifies sz (mem ! j) \<longrightarrow>
            bsize (mem ! i) - sz \<le> bsize (mem ! j) - sz) \<and>
         (\<forall>j<length mem. qualifies sz (mem ! j) \<and> bsize (mem ! j) - sz = bsize (mem ! i) - sz \<longrightarrow>
            i \<le> j \<and> (ascending mem \<longrightarrow> address (mem ! i) \<le> address (mem ! j))))"
  proof
    assume ne: "findBestFit mem sz \<noteq> -1"
    with findBestFit_cases[of mem sz] obtain i where i: "i < length mem"
      "findBestFit mem sz = int i" "qualifies sz (mem ! i)"
      "\<forall>j<length mem. qualifies sz (mem ! j) \<longrightarrow> bsize (mem ! i) \<le> bsize (mem ! j)"
      "\<forall>j<i. qualifies sz (mem ! j) \<longrightarrow> bsize (mem ! i) < bsize (mem ! j)"
      by blast
    have first: "i \<le> j" if "j < length mem" "qualifies sz (mem ! j)"
      "bsize (mem ! j) - sz = bsize (mem ! i) - sz" for j
    proof (rule ccontr)
      assume "\<not> i \<le> j"
      then have "j < i" by simp
      with i(5) that show False by auto
    qed
    show "\<exists>i<length mem. findBestFit mem sz = int i \<and> qualifies sz (mem ! i) \<and>
         (\<forall>j<length mem. qualifies sz (mem ! j) \<longrightarrow>
            bsize (mem ! i) - sz \<le> bsize (mem ! j) - sz) \<and>
         (\<forall>j<length mem. qualifies sz (mem ! j) \<and> bsize (mem ! j) - sz = bsize (mem ! i) - sz \<longrightarrow>
            i \<le> j \<and> (ascending mem \<longrightarrow> address (mem ! i) \<le> address (mem ! j)))"
      using i(1-4) first ascending_nth[of mem i]
      by (intro exI[of _ i]) auto
  qed
next
  show "free b1 \<and> free b2 \<and> free b3 \<and> bsize b1 = 512 * 1024 \<and> bsize b2 = 2 * 1024 * 1024 \<and>
    bsize b3 = 1024 * 1024 \<longrightarrow> findBestFit [b1, b2, b3] (600 * 1024) = 2"
    by (simp add: findBestFit_def)
qed

theorem findBestFit_selects_witness:
  "findBestFit exampleBlocks (600 * 1024) = 2 \<and> ascending exampleBlocks \<and>
   qualifies (600 * 1024) (exampleBlocks ! 1) \<and> qualifies (600 * 1024) (exampleBlocks ! 2) \<and>
   \<not> qualifies (600 * 1024) (exampleBlocks ! 0) \<and>
   (\<exists>i<length exampleBlocks. findBestFit exampleBlocks (600 * 1024) = int i \<and>
      qualifies (600 * 1024) (exampleBlocks ! i) \<and>
      bsize (exampleBlocks ! i) - 600 * 1024 \<le> bsize (exampleBlocks ! 1) - 600 * 1024 \<and>
      address (exampleBlocks ! i) \<le> address (exampleBlocks ! 2)) \<and>
   findBestFit tiedBlocks (600 * 1024) = 0 \<and> ascending tiedBlocks \<and>
   qualifies (600 * 1024) (tiedBlocks ! 2) \<and>
   bsize (tiedBlocks ! 2) - 600 * 1024 = bsize (tiedBlocks ! 0) - 600 * 1024 \<and>
   address (tiedBlocks ! 0) \<le> address (tiedBlocks ! 2)"
  using findBestFit_selects[of exampleBlocks "600 * 1024" "exampleBlocks ! 0" "exampleBlocks ! 1"
      "exampleBlocks ! 2"]
    findBestFit_selects[of tiedBlocks "600 * 1024"]
  by (simp add: exampleBlocks_def tiedBlocks_def findBestFit_def qualifies_def ascending_def)

text \<open>
  Claim C4. For every block list and every requested size, \<^verbatim>\<open>_findWorstFit\<close> returns
  \<open>-1\<close> exactly when no free block is large enough; otherwise it returns the index of a
  qualifying block whose difference \<open>size - requested\<close> is maximal among the qualifying
  blocks, and among the qualifying blocks that attain this maximum it is the one of lowest
  index, hence, on a list in ascending address order, of lowest address.
\<close>

theorem findWorstFit_selects:
  "(findWorstFit mem sz = -1 \<longleftrightarrow> (\<forall>b\<in>set mem. \<not> qualifies sz b)) \<and>
   (findWorstFit mem sz \<noteq> -1 \<longrightarrow>
      (\<exists>i<length mem. findWorstFit mem sz = int i \<and> qualifies sz (mem ! i) \<and>
         (\<forall>j<length mem. qualifies sz (mem ! j) \<longrightarrow>
            bsize (mem ! j) - sz \<le> bsize (mem ! i) - sz) \<and>
         (\<forall>j<length mem. qualifies sz (mem ! j) \<and> bsize (mem ! j) - sz = bsize (mem ! i) - sz \<longrightarrow>
            i \<le> j \<and> (ascending mem \<longrightarrow> address (mem ! i) \<le> address (mem ! j)))))"
proof (intro conjI)
  show "findWorstFit mem sz = -1 \<longleftrightarrow> (\<forall>b\<in>set mem. \<not> qualifies sz b)"
    using findWorstFit_cases[of mem sz] by (auto simp: all_set_conv_all_nth)
next
  show "findWorstFit mem sz \<noteq> -1 \<longrightarrow>
      (\<exists>i<length mem. findWorstFit mem sz = int i \<and> qualifies sz (mem ! i) \<and>
         (\<forall>j<length mem. qualifies sz (mem ! j) \<longrightarrow>
            bsize (mem ! j) - sz \<le> bsize (mem ! i) - sz) \<and>
         (\<forall>j<length mem. qualifies sz (mem ! j) \<and> bsize (mem ! j) - sz = bsize (mem ! i) - sz \<longrightarrow>
            i \<le> j \<and> (ascending mem \<longrightarrow> address (mem ! i) \<le> address (mem ! j))))"
  proof
    assume ne: "findWorstFit mem sz \<noteq> -1"
    with findWorstFit_cases[of mem sz] obtain i where i: "i < length mem"
      "findWorstFit mem sz = int i" "qualifies sz (mem ! i)"
      "\<forall>j<length mem. qualifies sz (mem ! j) \<longrightarrow> bsize (mem ! j) \<le> bsize (mem ! i)"
      "\<forall>j<i. qualifies sz (mem ! j) \<longrightarrow> bsize (mem ! j) < bsize (mem ! i)"
      by blast
    have first: "i \<le> j" if "j < length mem" "qualifies sz (mem ! j)"
      "bsize (mem ! j) - sz = bsize (mem ! i) - sz" for j
    proof (rule ccontr)
      assume "\<not> i \<le> j"
      then have "j < i" by simp
      with i(5) that show False by auto
    qed
    show "\<exists>i<length mem. findWorstFit mem sz = int i \<and> qualifies sz (mem ! i) \<and>
         (\<forall>j<length mem. qualifies sz (mem ! j) \<longrightarrow>
            bsize (mem ! j) - sz \<le> bsize (mem ! i) - sz) \<and>
         (\<forall>j<length mem. qualifies sz (mem ! j) \<and> bsize (mem ! j) - sz = bsize (mem ! i) - sz \<longrightarrow>
            i \<le> j \<and> (ascending mem \<longrightarrow> address (mem ! i) \<le> address (mem ! j)))"
      using i(1-4) first ascending_nth[of mem i]
      by (intro exI[of _ i]) auto
  qed
qed

theorem findWorstFit_selects_witness:
  "findWorstFit exampleBlocks (600 * 1024) = 1 \<and> ascending exampleBlocks \<and>
   qualifies (600 * 1024) (exampleBlocks ! 1) \<and> qualifies (600 * 1024) (exampleBlocks ! 2) \<and>
   (\<exists>i<length exampleBlocks. findWorstFit exampleBlocks (600 * 1024) = int i \<and>
      qualifies (600 * 1024) (exampleBlocks ! i) \<and>
      bsize (exampleBlocks ! 2) - 600 * 1024 \<le> bsize (exampleBlocks ! i) - 600 * 1024 \<and>
      address (exampleBlocks ! i) \<le> address (exampleBlocks ! 1)) \<and>
   findWorstFit tiedBlocks (600 * 1024) = 0 \<and> ascending tiedBlocks \<and>
   qualifies (600 * 1024) (tiedBlocks ! 2) \<and>
   bsize (tiedBlocks ! 2) - 600 * 1024 = bsize (tiedBlocks ! 0) - 600 * 1024 \<and>
   address (tiedBlocks ! 0) \<le> address (tiedBlocks ! 2)"
  using findWorstFit_selects[of exampleBlocks "600 * 1024"]
    findWorstFit_selects[of tiedBlocks "600 * 1024"]
  by (simp add: exampleBlocks_def tiedBlocks_def findWorstFit_def qualifies_def ascending_def)

section \<open>Allocation in the dynamic manager\<close>

lemma findFit_cases:
  "findFit alg mem n = -1 \<or> (\<exists>i<length mem. findFit alg mem n = int i \<and> qualifies n (mem ! i))"
  using findFirstFit_cases[of mem n] findBestFit_cases[of mem n] findWorstFit_cases[of mem n]
  unfolding findFit_def by (auto split: if_splits)

lemma findFit_none:
  "alg = ''first'' \<or> alg = ''best'' \<or> alg = ''worst'' \<Longrightarrow>
   findFit alg mem n = -1 \<longleftrightarrow> (\<forall>b\<in>set mem. \<not> qualifies n b)"
  using findFirstFit_cases[of mem n] findBestFit_cases[of mem n] findWorstFit_cases[of mem n]
  unfolding findFit_def by (auto simp: all_set_conv_all_nth)

lemma fits_Bytes: "fits (Bytes n) b = qualifies n b"
  by (simp add: fits_def qualifies_def)

lemma fits_Unbounded: "\<not> fits Unbounded b"
  by (simp add: fits_def)

text \<open>The list after the in-place update and the splice.\<close>

lemma splice_after_update:
  "i < length mem \<Longrightarrow>
   take (i + 1) (mem[i := b]) @ [r] @ drop (i + 1) (mem[i := b]) = take i mem @ b # r # drop (Suc i) mem"
  by (simp add: take_Suc_conv_app_nth)

lemma allocateDynamic_found:
  assumes "psize process = Bytes n" "i < length (memory mm)"
    "findFit (fitAlgorithm mm) (memory mm) n = int i"
  shows "allocateDynamic mm process =
     (Success,
      mm\<lparr>memory := take i (memory mm) @
         (memory mm ! i)\<lparr>bsize := n, free := False, processId := Some (pid process)\<rparr> #
         (if n < bsize (memory mm ! i)
          then [\<lparr>address = address (memory mm ! i) + n, bsize = bsize (memory mm ! i) - n,
                 free = True, processId = None\<rparr>]
          else []) @
         drop (Suc i) (memory mm)\<rparr>,
      process\<lparr>allocated := True, partitionId := Some (address (memory mm ! i))\<rparr>)"
  using assms
  by (simp add: allocateDynamic_def Let_def take_Suc_conv_app_nth upd_conv_take_nth_drop)

lemma allocateDynamic_not_found:
  "psize process = Unbounded \<or> (psize process = Bytes n \<and> findFit (fitAlgorithm mm) (memory mm) n = -1)
   \<Longrightarrow> allocateDynamic mm process = (Failure AllocationFailure, mm, process)"
  by (auto simp: allocateDynamic_def)


lemma sum_bsize_split:
  "i < length mem \<Longrightarrow>
   sum_list (map bsize mem) =
     sum_list (map bsize (take i mem)) + bsize (mem ! i) + sum_list (map bsize (drop (Suc i) mem))"
proof -
  assume "i < length mem"
  then have "mem = take i mem @ mem ! i # drop (Suc i) mem"
    by (rule id_take_nth_drop)
  then have "sum_list (map bsize mem) = sum_list (map bsize (take i mem @ mem ! i # drop (Suc i) mem))"
    by simp
  then show ?thesis by simp
qed

text \<open>
  Claim C2. \<^verbatim>\<open>DynamicMemoryManager.allocate\<close> takes the index the configured fit function
  returns (\<open>findFit\<close> dispatches on the name). It either succeeds or reports
  \<open>AllocationFailure\<close> with the manager and the process unchanged, and it fails whenever
  no block fits the process; with one of the three fit functions configured it succeeds
  whenever some block fits. On success the selected block, free and large enough, is
  replaced in place by an occupied block of exactly the process's size at the same
  address, owned by the process; a free block covering the remainder follows it
  immediately when the selected block was strictly larger; the other blocks and the total
  of the sizes are unchanged; the process is flagged allocated and refers to the block's
  address.
\<close>

theorem allocateDynamic_spec:
  "(findFit ''first'' mem n = findFirstFit mem n \<and> findFit ''best'' mem n = findBestFit mem n \<and>
    findFit ''worst'' mem n = findWorstFit mem n) \<and>
   (fst (allocateDynamic mm process) = Success \<or>
    allocateDynamic mm process = (Failure AllocationFailure, mm, process)) \<and>
   ((\<forall>b\<in>set (memory mm). \<not> fits (psize process) b) \<longrightarrow>
      allocateDynamic mm process = (Failure AllocationFailure, mm, process)) \<and>
   (fitAlgorithm mm \<in> {''first'', ''best'', ''worst''} \<and> (\<exists>b\<in>set (memory mm). fits (psize process) b) \<longrightarrow>
      fst (allocateDynamic mm process) = Success) \<and>
   (fst (allocateDynamic mm process) = Success \<longrightarrow>
      (\<exists>sz i. psize process = Bytes sz \<and> i < length (memory mm) \<and>
         findFit (fitAlgorithm mm) (memory mm) sz = int i \<and> fits (psize process) (memory mm ! i) \<and>
         allocateDynamic mm process =
           (Success,
            mm\<lparr>memory := take i (memory mm) @
               \<lparr>address = address (memory mm ! i), bsize = sz, free = False,
                 processId = Some (pid process)\<rparr> #
               (if sz < bsize (memory mm ! i)
                then [\<lparr>address = address (memory mm ! i) + sz, bsize = bsize (memory mm ! i) - sz,
                       free = True, processId = None\<rparr>]
                else []) @
               drop (Suc i) (memory mm)\<rparr>,
            process\<lparr>allocated := True, partitionId := Some (address (memory mm ! i))\<rparr>) \<and>
         sum_list (map bsize (memory (fst (snd (allocateDynamic mm process))))) =
           sum_list (map bsize (memory mm))))"
proof (intro conjI)
  show "findFit ''first'' mem n = findFirstFit mem n" by (simp add: findFit_def)
  show "findFit ''best'' mem n = findBestFit mem n" by (simp add: findFit_def)
  show "findFit ''worst'' mem n = findWorstFit mem n" by (simp add: findFit_def)
next
  show "fst (allocateDynamic mm process) = Success \<or>
    allocateDynamic mm process = (Failure AllocationFailure, mm, process)"
    by (auto simp: allocateDynamic_def Let_def split: procsize.splits)
next
  show "(\<forall>b\<in>set (memory mm). \<not> fits (psize process) b) \<longrightarrow>
      allocateDynamic mm process = (Failure AllocationFailure, mm, process)"
  proof
    assume none: "\<forall>b\<in>set (memory mm). \<not> fits (psize process) b"
    show "allocateDynamic mm process = (Failure AllocationFailure, mm, process)"
    proof (cases "psize process")
      case (Bytes sz)
      with none have "\<forall>b\<in>set (memory mm). \<not> qualifies sz b" by (simp add: fits_Bytes)
      with findFit_cases[of "fitAlgorithm mm" "memory mm" sz]
      have "findFit (fitAlgorithm mm) (memory mm) sz = -1" by auto
      with Bytes show ?thesis using allocateDynamic_not_found by blast
    next
      case Unbounded
      then show ?thesis using allocateDynamic_not_found by blast
    qed
  qed
next
  show "fitAlgorithm mm \<in> {''first'', ''best'', ''worst''} \<and>
      (\<exists>b\<in>set (memory mm). fits (psize process) b) \<longrightarrow> fst (allocateDynamic mm process) = Success"
  proof
    assume a: "fitAlgorithm mm \<in> {''first'', ''best'', ''worst''} \<and>
      (\<exists>b\<in>set (memory mm). fits (psize process) b)"
    then obtain b where b: "b \<in> set (memory mm)" "fits (psize process) b" by blast
    then obtain sz where sz: "psize process = Bytes sz"
      by (cases "psize process") (auto simp: fits_Unbounded)
    with b have "\<exists>b\<in>set (memory mm). qualifies sz b" by (auto simp: fits_Bytes)
    with a findFit_none[of "fitAlgorithm mm" "memory mm" sz]
    have "findFit (fitAlgorithm mm) (memory mm) sz \<noteq> -1" by auto
    with sz show "fst (allocateDynamic mm process) = Success"
      by (simp add: allocateDynamic_def Let_def)
  qed
next
  show "fst (allocateDynamic mm process) = Success \<longrightarrow>
      (\<exists>sz i. psize process = Bytes sz \<and> i < length (memory mm) \<and>
         findFit (fitAlgorithm mm) (memory mm) sz = int i \<and> fits (psize process) (memory mm ! i) \<and>
         allocateDynamic mm process =
           (Success,
            mm\<lparr>memory := take i (memory mm) @
               \<lparr>address = address (memory mm ! i), bsize = sz, free = False,
                 processId = Some (pid process)\<rparr> #
               (if sz < bsize (memory mm ! i)
                then [\<lparr>address = address (memory mm ! i) + sz, bsize = bsize (memory mm ! i) - sz,
                       free = True, processId = None\<rparr>]
                else []) @
               drop (Suc i) (memory mm)\<rparr>,
            process\<lparr>allocated := True, partitionId := Some (address (memory mm ! i))\<rparr>) \<and>
         sum_list (map bsize (memory (fst (snd (allocateDynamic mm process))))) =
           sum_list (map bsize (memory mm)))"
  proof
    assume ok: "fst (allocateDynamic mm process) = Success"
    then obtain sz where sz: "psize process = Bytes sz"
      by (cases "psize process") (auto simp: allocateDynamic_def)
    with ok have "findFit (fitAlgorithm mm) (memory mm) sz \<noteq> -1"
      by (auto simp: allocateDynamic_def Let_def split: if_splits)
    with findFit_cases[of "fitAlgorithm mm" "memory mm" sz]
    obtain i where i: "i < length (memory mm)" "findFit (fitAlgorithm mm) (memory mm) sz = int i"
      "qualifies sz (memory mm ! i)" by blast
    have same: "(memory mm ! i)\<lparr>bsize := sz, free := False, processId := Some (pid process)\<rparr> =
        \<lparr>address = address (memory mm ! i), bsize = sz, free = False,
          processId = Some (pid process)\<rparr>"
      by simp
    note res = allocateDynamic_found[OF sz i(1) i(2), unfolded same]
    have "sum_list (map bsize (memory (fst (snd (allocateDynamic mm process))))) =
           sum_list (map bsize (memory mm))"
      using i(3) by (simp add: res sum_bsize_split[OF i(1)] qualifies_def)
    with sz i res show "\<exists>sz i. psize process = Bytes sz \<and> i < length (memory mm) \<and>
         findFit (fitAlgorithm mm) (memory mm) sz = int i \<and> fits (psize process) (memory mm ! i) \<and>
         allocateDynamic mm process =
           (Success,
            mm\<lparr>memory := take i (memory mm) @
               \<lparr>address = address (memory mm ! i), bsize = sz, free = False,
                 processId = Some (pid process)\<rparr> #
               (if sz < bsize (memory mm ! i)
                then [\<lparr>address = address (memory mm ! i) + sz, bsize = bsize (memory mm ! i) - sz,
                       free = True, processId = None\<rparr>]
                else []) @
               drop (Suc i) (memory mm)\<rparr>,
            process\<lparr>allocated := True, partitionId := Some (address (memory mm ! i))\<rparr>) \<and>
         sum_list (map bsize (memory (fst (snd (allocateDynamic mm process))))) =
           sum_list (map bsize (memory mm))"
      by (intro exI[of _ sz] exI[of _ i]) (simp add: fits_Bytes)
  qed
qed

theorem allocateDynamic_spec_witness:
  "fitAlgorithm freshManager \<in> {''first'', ''best'', ''worst''} \<and>
   fits (Bytes 524288) (memory freshManager ! 0) \<and>
   allocateDynamic freshManager (ProcessControlBlock 0 (Bytes 524288)) =
     (Success,
      freshManager\<lparr>memory :=
        [\<lparr>address = 2097152, bsize = 524288, free = False, processId = Some 0\<rparr>,
         \<lparr>address = 2621440, bsize = 14155776, free = True, processId = None\<rparr>]\<rparr>,
      \<lparr>pid = 0, psize = Bytes 524288, allocated = True, partitionId = Some 2097152\<rparr>) \<and>
   \<not> fits (Bytes 16777216) (memory freshManager ! 0) \<and>
   allocateDynamic freshManager (ProcessControlBlock 1 (Bytes 16777216)) =
     (Failure AllocationFailure, freshManager, ProcessControlBlock 1 (Bytes 16777216)) \<and>
   allocateDynamic freshManager (ProcessControlBlock 2 Unbounded) =
     (Failure AllocationFailure, freshManager, ProcessControlBlock 2 Unbounded)"
  using allocateDynamic_spec[of "memory freshManager" 524288 freshManager
      "ProcessControlBlock 0 (Bytes 524288)"]
    allocateDynamic_spec[of "memory freshManager" 524288 freshManager
      "ProcessControlBlock 1 (Bytes 16777216)"]
    allocateDynamic_spec[of "memory freshManager" 524288 freshManager
      "ProcessControlBlock 2 Unbounded"]
  by (simp add: freshManager_def newDynamicMemoryManager_def ProcessControlBlock_def
      TOTAL_MEMORY_def OS_MEMORY_SIZE_def fits_def allocateDynamic_def findFit_def
      findBestFit_def Let_def)

section \<open>Coalescing\<close>

lemma mergeFree_short: "length mem \<le> 1 \<Longrightarrow> mergeFree mem = mem"
  by (cases mem; cases "tl mem") auto

lemma coalesceLoop_mergeFree: "coalesceLoop mem i = take i mem @ mergeFree (drop i mem)"
proof (induction mem i rule: coalesceLoop.induct)
  case (1 mem i)
  show ?case
  proof (cases "i + 1 < length mem")
    case False
    then have "mergeFree (drop i mem) = drop i mem"
      by (intro mergeFree_short) simp
    with False show ?thesis by (simp add: coalesceLoop.simps[of mem i])
  next
    case True
    then have d: "drop i mem = mem ! i # mem ! (i + 1) # drop (i + 2) mem"
      by (simp add: Cons_nth_drop_Suc)
    show ?thesis
    proof (cases "free (mem ! i) \<and> free (mem ! (i + 1))")
      case merge: True
      define c where "c = (mem ! i)\<lparr>bsize := bsize (mem ! i) + bsize (mem ! (i + 1))\<rparr>"
      define mem' where "mem' = take (i + 1) (mem[i := c]) @ drop (i + 2) mem"
      have mem': "mem' = take i mem @ c # drop (i + 2) mem"
        using True by (simp add: mem'_def take_Suc_conv_app_nth)
      have tk: "take i mem' = take i mem" and dr: "drop i mem' = c # drop (i + 2) mem"
        using True by (simp_all add: mem')
      have "coalesceLoop mem i = coalesceLoop mem' i"
        using True merge by (subst coalesceLoop.simps) (simp add: Let_def mem'_def c_def)
      also have "\<dots> = take i mem' @ mergeFree (drop i mem')"
        using "1.IH"(1)[OF True refl refl] merge by (simp add: mem'_def c_def)
      also have "\<dots> = take i mem @ mergeFree (c # drop (i + 2) mem)"
        by (simp only: tk dr)
      also have "\<dots> = take i mem @ mergeFree (drop i mem)"
        using merge by (simp add: d c_def)
      finally show ?thesis .
    next
      case keep: False
      have "coalesceLoop mem i = coalesceLoop mem (i + 1)"
        using True keep by (subst coalesceLoop.simps) (auto simp: Let_def)
      also have "\<dots> = take (i + 1) mem @ mergeFree (drop (i + 1) mem)"
        using "1.IH"(2)[OF True refl refl] keep by simp
      also have "\<dots> = take i mem @ mergeFree (drop i mem)"
        using True keep by (auto simp: d take_Suc_conv_app_nth Cons_nth_drop_Suc[symmetric])
      finally show ?thesis .
    qed
  qed
qed

lemma coalesce_mergeFree: "coalesce mem = mergeFree mem"
  by (simp add: coalesce_def coalesceLoop_mergeFree)

lemma mergeFree_head: "\<exists>b' rest'. mergeFree (b # rest) = b' # rest' \<and> free b' = free b"
proof (induction rest arbitrary: b)
  case Nil
  then show ?case by simp
next
  case (Cons x rest)
  show ?case
  proof (cases "free b \<and> free x")
    case True
    with Cons[of "b\<lparr>bsize := bsize b + bsize x\<rparr>"] show ?thesis by simp
  next
    case False
    then show ?thesis by auto
  qed
qed

lemma noAdjacentFree_mergeFree: "noAdjacentFree (mergeFree mem)"
proof (induction mem rule: mergeFree.induct)
  case (1 a b rest)
  show ?case
  proof (cases "free a \<and> free b")
    case True
    with 1 show ?thesis by simp
  next
    case False
    with 1 have ih: "noAdjacentFree (mergeFree (b # rest))" by simp
    from mergeFree_head[of b rest] obtain b' rest' where
      hd: "mergeFree (b # rest) = b' # rest'" "free b' = free b" by blast
    with False ih show ?thesis by auto
  qed
qed simp_all

lemma mergeFree_id: "noAdjacentFree mem \<Longrightarrow> mergeFree mem = mem"
  by (induction mem rule: mergeFree.induct) auto

lemma noAdjacentFree_nth:
  "noAdjacentFree mem \<longleftrightarrow> (\<forall>k. k + 1 < length mem \<longrightarrow> \<not> (free (mem ! k) \<and> free (mem ! (k + 1))))"
proof (induction mem rule: noAdjacentFree.induct)
  case (1 a b rest)
  have "(\<forall>k. k + 1 < length (a # b # rest) \<longrightarrow>
           \<not> (free ((a # b # rest) ! k) \<and> free ((a # b # rest) ! (k + 1)))) \<longleftrightarrow>
        \<not> (free a \<and> free b) \<and>
        (\<forall>k. k + 1 < length (b # rest) \<longrightarrow> \<not> (free ((b # rest) ! k) \<and> free ((b # rest) ! (k + 1))))"
    (is "?L \<longleftrightarrow> ?R")
  proof
    assume l: ?L
    have "\<not> (free a \<and> free b)" using l[rule_format, of 0] by simp
    moreover have "\<not> (free ((b # rest) ! k) \<and> free ((b # rest) ! (k + 1)))"
      if "k + 1 < length (b # rest)" for k
      using l[rule_format, of "Suc k"] that by simp
    ultimately show ?R by blast
  next
    assume r: ?R
    show ?L
    proof (intro allI impI)
      fix k assume "k + 1 < length (a # b # rest)"
      then show "\<not> (free ((a # b # rest) ! k) \<and> free ((a # b # rest) ! (k + 1)))"
        using r by (cases k) auto
    qed
  qed
  with 1 show ?case by simp
qed simp_all

section \<open>Allocation in the static manager\<close>

lemma staticScan_None: "staticScan mem process = None \<longleftrightarrow> (\<forall>part\<in>set mem. \<not> fits (psize process) part)"
  by (induction mem) (auto simp: fits_def)

lemma staticScan_Some:
  "staticScan mem process = Some (mem', process') \<Longrightarrow>
   \<exists>i<length mem. fits (psize process) (mem ! i) \<and> (\<forall>j<i. \<not> fits (psize process) (mem ! j)) \<and>
     mem' = mem[i := (mem ! i)\<lparr>free := False, processId := Some (pid process)\<rparr>] \<and>
     process' = process\<lparr>allocated := True, partitionId := Some (int (partId (mem ! i)))\<rparr>"
proof (induction mem arbitrary: mem')
  case Nil
  then show ?case by simp
next
  case (Cons part rest)
  show ?case
  proof (cases "fits (psize process) part")
    case True
    with Cons.prems show ?thesis
      by (intro exI[of _ 0]) (auto simp: fits_def)
  next
    case False
    with Cons.prems obtain rest' where r: "staticScan rest process = Some (rest', process')"
      "mem' = part # rest'"
      by (auto simp: fits_def)
    from Cons.IH[OF r(1)] obtain i where i: "i < length rest" "fits (psize process) (rest ! i)"
      "\<forall>j<i. \<not> fits (psize process) (rest ! j)"
      "rest' = rest[i := (rest ! i)\<lparr>free := False, processId := Some (pid process)\<rparr>]"
      "process' = process\<lparr>allocated := True, partitionId := Some (int (partId (rest ! i)))\<rparr>"
      by blast
    with False r(2) show ?thesis
      by (intro exI[of _ "Suc i"]) (auto simp: All_less_Suc2)
  qed
qed

lemma staticScan_sizes:
  "staticScan mem process = Some (mem', process') \<Longrightarrow>
   map bsize mem' = map bsize mem \<and> map address mem' = map address mem \<and>
   map partId mem' = map partId mem"
  by (induction mem arbitrary: mem') (auto split: if_splits)

lemma release_sizes:
  "release p mem = Some mem' \<Longrightarrow>
   map bsize mem' = map bsize mem \<and> map address mem' = map address mem"
  by (induction mem arbitrary: mem') (auto split: if_splits)

lemma release_partIds:
  "release p mem = Some mem' \<Longrightarrow> map partId mem' = map partId mem"
  by (induction mem arbitrary: mem') (auto split: if_splits)

text \<open>
  Claim C7. \<^verbatim>\<open>StaticMemoryManager.allocate\<close> occupies the first partition, in list order,
  that is free and at least as large as the process: it sets the partition's owner to the
  process id, flags the process allocated and stores the partition's id in it; the other
  partitions are untouched. When no partition qualifies it reports \<open>AllocationFailure\<close>
  and leaves the manager and the process as they were. Neither \<^verbatim>\<open>allocate\<close> nor
  \<^verbatim>\<open>deallocate\<close> changes the number, the sizes or the addresses of the partitions, which
  the constructor sets to five partitions of 1, 2, 4, 8 and 1 MiB in ascending address
  order, all free. With all partitions free, a process of 1.5 MiB lands in the 2 MiB
  partition, and a process of 3 MiB allocated next lands in the 4 MiB partition.
\<close>

theorem allocateStatic_spec:
  "((\<forall>part\<in>set (memory mm). \<not> fits (psize process) part) \<longrightarrow>
      allocateStatic mm process = (Failure AllocationFailure, mm, process)) \<and>
   ((\<exists>part\<in>set (memory mm). fits (psize process) part) \<longrightarrow>
      (\<exists>i<length (memory mm). fits (psize process) (memory mm ! i) \<and>
         (\<forall>j<i. \<not> fits (psize process) (memory mm ! j)) \<and>
         allocateStatic mm process =
           (Success,
            mm\<lparr>memory := (memory mm)[i := (memory mm ! i)\<lparr>free := False,
                                                          processId := Some (pid process)\<rparr>]\<rparr>,
            process\<lparr>allocated := True,
                    partitionId := Some (int (partId (memory mm ! i)))\<rparr>))) \<and>
   (map bsize (memory (fst (snd (allocateStatic mm process)))) = map bsize (memory mm) \<and>
    map address (memory (fst (snd (allocateStatic mm process)))) = map address (memory mm) \<and>
    map bsize (memory (fst (deallocateStatic mm procs p))) = map bsize (memory mm) \<and>
    map address (memory (fst (deallocateStatic mm procs p))) = map address (memory mm)) \<and>
   (map bsize (memory (newStaticMemoryManager t)) = [1 * MiB, 2 * MiB, 4 * MiB, 8 * MiB, 1 * MiB] \<and>
    map address (memory (newStaticMemoryManager t)) = [2 * MiB, 3 * MiB, 5 * MiB, 9 * MiB, 17 * MiB] \<and>
    map partId (memory (newStaticMemoryManager t)) = [0, 1, 2, 3, 4] \<and>
    list_all free (memory (newStaticMemoryManager t))) \<and>
   (allocateStatic (newStaticMemoryManager t) \<lparr>pid = i1, psize = Bytes 1572864, allocated = False, partitionId = None\<rparr> =
      (Success,
       \<lparr>totalSize = t, memory = (memory (newStaticMemoryManager t))[1 :=
           \<lparr>address = 3 * MiB, bsize = 2 * MiB, free = False, processId = Some i1, partId = 1\<rparr>]\<rparr>,
       \<lparr>pid = i1, psize = Bytes 1572864, allocated = True, partitionId = Some 1\<rparr>) \<and>
    allocateStatic (fst (snd (allocateStatic (newStaticMemoryManager t)
                        \<lparr>pid = i1, psize = Bytes 1572864, allocated = False, partitionId = None\<rparr>)))
        \<lparr>pid = i2, psize = Bytes (3 * MiB), allocated = False, partitionId = None\<rparr> =
      (Success,
       \<lparr>totalSize = t, memory = (memory (newStaticMemoryManager t))[1 :=
           \<lparr>address = 3 * MiB, bsize = 2 * MiB, free = False, processId = Some i1, partId = 1\<rparr>,
           2 := \<lparr>address = 5 * MiB, bsize = 4 * MiB, free = False, processId = Some i2, partId = 2\<rparr>]\<rparr>,
       \<lparr>pid = i2, psize = Bytes (3 * MiB), allocated = True, partitionId = Some 2\<rparr>))"
proof (intro conjI)
  show "(\<forall>part\<in>set (memory mm). \<not> fits (psize process) part) \<longrightarrow>
      allocateStatic mm process = (Failure AllocationFailure, mm, process)"
    using staticScan_None[of "memory mm" process] by (auto simp: allocateStatic_def)
next
  show "(\<exists>part\<in>set (memory mm). fits (psize process) part) \<longrightarrow>
      (\<exists>i<length (memory mm). fits (psize process) (memory mm ! i) \<and>
         (\<forall>j<i. \<not> fits (psize process) (memory mm ! j)) \<and>
         allocateStatic mm process =
           (Success,
            mm\<lparr>memory := (memory mm)[i := (memory mm ! i)\<lparr>free := False,
                                                          processId := Some (pid process)\<rparr>]\<rparr>,
            process\<lparr>allocated := True,
                    partitionId := Some (int (partId (memory mm ! i)))\<rparr>))"
  proof
    assume "\<exists>part\<in>set (memory mm). fits (psize process) part"
    with staticScan_None[of "memory mm" process] obtain mem' process' where
      s: "staticScan (memory mm) process = Some (mem', process')" by fastforce
    from staticScan_Some[OF s] s show "\<exists>i<length (memory mm). fits (psize process) (memory mm ! i) \<and>
         (\<forall>j<i. \<not> fits (psize process) (memory mm ! j)) \<and>
         allocateStatic mm process =
           (Success,
            mm\<lparr>memory := (memory mm)[i := (memory mm ! i)\<lparr>free := False,
                                                          processId := Some (pid process)\<rparr>]\<rparr>,
            process\<lparr>allocated := True,
                    partitionId := Some (int (partId (memory mm ! i)))\<rparr>)"
      by (auto simp: allocateStatic_def)
  qed
next
  have a: "map bsize (memory (fst (snd (allocateStatic mm process)))) = map bsize (memory mm) \<and>
    map address (memory (fst (snd (allocateStatic mm process)))) = map address (memory mm)"
  proof (cases "staticScan (memory mm) process")
    case None
    then show ?thesis by (simp add: allocateStatic_def)
  next
    case (Some r)
    then obtain mem' process' where "staticScan (memory mm) process = Some (mem', process')"
      by (cases r) simp
    from staticScan_sizes[OF this] this show ?thesis
      by (simp add: allocateStatic_def)
  qed
  have d: "map bsize (memory (fst (deallocateStatic mm procs p))) = map bsize (memory mm) \<and>
    map address (memory (fst (deallocateStatic mm procs p))) = map address (memory mm)"
    using release_sizes[of p "memory mm"]
    by (cases "release p (memory mm)") (simp_all add: deallocateStatic_def)
  from a show "map bsize (memory (fst (snd (allocateStatic mm process)))) = map bsize (memory mm)"
    by simp
  from a show "map address (memory (fst (snd (allocateStatic mm process)))) = map address (memory mm)"
    by simp
  from d show "map bsize (memory (fst (deallocateStatic mm procs p))) = map bsize (memory mm)"
    by simp
  from d show "map address (memory (fst (deallocateStatic mm procs p))) = map address (memory mm)"
    by simp
next
  show "map bsize (memory (newStaticMemoryManager t)) = [1 * MiB, 2 * MiB, 4 * MiB, 8 * MiB, 1 * MiB]"
    by (simp add: newStaticMemoryManager_def partitionSizes_def OS_MEMORY_SIZE_def MiB_def)
  show "map address (memory (newStaticMemoryManager t)) = [2 * MiB, 3 * MiB, 5 * MiB, 9 * MiB, 17 * MiB]"
    by (simp add: newStaticMemoryManager_def partitionSizes_def OS_MEMORY_SIZE_def MiB_def)
  show "map partId (memory (newStaticMemoryManager t)) = [0, 1, 2, 3, 4]"
    by (simp add: newStaticMemoryManager_def partitionSizes_def OS_MEMORY_SIZE_def MiB_def)
  show "list_all free (memory (newStaticMemoryManager t))"
    by (simp add: newStaticMemoryManager_def partitionSizes_def OS_MEMORY_SIZE_def MiB_def)
next
  show "allocateStatic (newStaticMemoryManager t) \<lparr>pid = i1, psize = Bytes 1572864, allocated = False, partitionId = None\<rparr> =
      (Success,
       \<lparr>totalSize = t, memory = (memory (newStaticMemoryManager t))[1 :=
           \<lparr>address = 3 * MiB, bsize = 2 * MiB, free = False, processId = Some i1, partId = 1\<rparr>]\<rparr>,
       \<lparr>pid = i1, psize = Bytes 1572864, allocated = True, partitionId = Some 1\<rparr>)"
    by (simp add: allocateStatic_def newStaticMemoryManager_def partitionSizes_def
        OS_MEMORY_SIZE_def MiB_def)
  show "allocateStatic (fst (snd (allocateStatic (newStaticMemoryManager t)
                        \<lparr>pid = i1, psize = Bytes 1572864, allocated = False, partitionId = None\<rparr>)))
        \<lparr>pid = i2, psize = Bytes (3 * MiB), allocated = False, partitionId = None\<rparr> =
      (Success,
       \<lparr>totalSize = t, memory = (memory (newStaticMemoryManager t))[1 :=
           \<lparr>address = 3 * MiB, bsize = 2 * MiB, free = False, processId = Some i1, partId = 1\<rparr>,
           2 := \<lparr>address = 5 * MiB, bsize = 4 * MiB, free = False, processId = Some i2, partId = 2\<rparr>]\<rparr>,
       \<lparr>pid = i2, psize = Bytes (3 * MiB), allocated = True, partitionId = Some 2\<rparr>)"
    by (simp add: allocateStatic_def newStaticMemoryManager_def partitionSizes_def
        OS_MEMORY_SIZE_def MiB_def)
qed


theorem allocateStatic_spec_witness:
  "\<not> fits (Bytes 1572864) (memory staticFresh ! 0) \<and> fits (Bytes 1572864) (memory staticFresh ! 1) \<and>
   allocateStatic staticFresh (ProcessControlBlock 1 (Bytes 1572864)) =
     (Success,
      staticFresh\<lparr>memory := (memory staticFresh)[1 := (memory staticFresh ! 1)\<lparr>free := False,
                                                            processId := Some 1\<rparr>]\<rparr>,
      \<lparr>pid = 1, psize = Bytes 1572864, allocated = True, partitionId = Some 1\<rparr>) \<and>
   list_all (\<lambda>part. \<not> fits (Bytes (9 * MiB)) part) (memory staticFresh) \<and>
   allocateStatic staticFresh (ProcessControlBlock 5 (Bytes (9 * MiB))) =
     (Failure AllocationFailure, staticFresh, ProcessControlBlock 5 (Bytes (9 * MiB)))"
  using allocateStatic_spec[of staticFresh "ProcessControlBlock 1 (Bytes 1572864)"]
    allocateStatic_spec[of staticFresh "ProcessControlBlock 5 (Bytes (9 * MiB))"]
  by (simp add: staticFresh_def newStaticMemoryManager_def partitionSizes_def OS_MEMORY_SIZE_def
      MiB_def TOTAL_MEMORY_def ProcessControlBlock_def fits_def allocateStatic_def)

section \<open>The registry\<close>

lemma map_pid_updateFirst:
  "(\<And>x. P x \<Longrightarrow> pid (f x) = pid x) \<Longrightarrow> map pid (updateFirst P f xs) = map pid xs"
  by (induction xs) auto

lemma length_updateFirst: "length (updateFirst P f xs) = length xs"
  by (induction xs) auto

lemma map_pid_clearProcess: "map pid (clearProcess p procs) = map pid procs"
  by (simp add: clearProcess_def map_pid_updateFirst)

lemma allocateStatic_cases:
  "(\<exists>mm' a. allocateStatic mm process =
       (Success, mm', process\<lparr>allocated := True, partitionId := Some a\<rparr>))
   \<or> allocateStatic mm process = (Failure AllocationFailure, mm, process)"
proof (cases "staticScan (memory mm) process")
  case None
  then show ?thesis by (simp add: allocateStatic_def)
next
  case (Some r)
  then obtain mem' process' where s: "staticScan (memory mm) process = Some (mem', process')"
    by (cases r) simp
  from staticScan_Some[OF s] s show ?thesis by (auto simp: allocateStatic_def)
qed

lemma allocateDynamic_cases:
  "(\<exists>mm' a. allocateDynamic mm process =
       (Success, mm', process\<lparr>allocated := True, partitionId := Some a\<rparr>))
   \<or> allocateDynamic mm process = (Failure AllocationFailure, mm, process)"
  by (auto simp: allocateDynamic_def Let_def split: procsize.splits)

lemma allocate_cases:
  "(\<exists>m' a. allocate m process = (Success, m', process\<lparr>allocated := True, partitionId := Some a\<rparr>))
   \<or> allocate m process = (Failure AllocationFailure, m, process)"
proof (cases m)
  case (StaticManager mm)
  with allocateStatic_cases[of mm process] show ?thesis by (auto simp: allocate_def)
next
  case (DynamicManager mm)
  with allocateDynamic_cases[of mm process] show ?thesis by (auto simp: allocate_def)
qed

lemma find_SomeD: "find P xs = Some x \<Longrightarrow> P x \<and> x \<in> set xs"
  by (induction xs) (auto split: if_splits)

lemma deallocate_pids: "map pid (snd (deallocate m procs p)) = map pid procs"
  by (auto simp: deallocate_def deallocateStatic_def deallocateDynamic_def map_pid_clearProcess
      split: manager.splits option.splits)

lemma handleProcessListClick_registry:
  "map pid (processes (snd (handleProcessListClick st i cls))) = map pid (processes st) \<and>
   nextProcessId (snd (handleProcessListClick st i cls)) = nextProcessId st"
proof (cases cls)
  case AllocateButton
  show ?thesis
  proof (cases "find (\<lambda>p. pid p = i) (processes st)")
    case None
    with AllocateButton show ?thesis by (simp add: handleProcessListClick_def)
  next
    case (Some process)
    from allocate_cases[of "memoryManager st" process] AllocateButton Some show ?thesis
      by (auto simp: handleProcessListClick_def dest!: find_SomeD intro!: map_pid_updateFirst)
  qed
next
  case DeallocateButton
  then show ?thesis
    using deallocate_pids[of "memoryManager st" "processes st" i]
    by (auto simp: handleProcessListClick_def split: prod.splits)
qed

lemma createProcess_registry:
  "map pid (processes r) = [0..<nextProcessId r] \<Longrightarrow>
   map pid (processes (snd (createProcess r x))) = [0..<nextProcessId (snd (createProcess r x))]"
  by (auto simp: createProcess_def pushProcess_def ProcessControlBlock_def split: jsnum.splits)

lemma initialize_registry:
  "map pid (processes (initialize cfg r)) = map pid (processes r) \<and>
   nextProcessId (initialize cfg r) = nextProcessId r"
  by (simp add: initialize_def comp_def)

lemma setupInitialState_registry:
  "map pid (processes (setupInitialState cfg)) = [0..<nextProcessId (setupInitialState cfg)]"
  by (simp add: setupInitialState_def initialize_registry defaultSizes_def createProcess_def
      pushProcess_def ProcessControlBlock_def isNaN_def upt_rec)

lemma reachable_registry: "reachable st \<Longrightarrow> map pid (processes st) = [0..<nextProcessId st]"
proof (induction rule: reachable.induct)
  case (start cfg)
  show ?case by (rule setupInitialState_registry)
next
  case (addProcess st x)
  then show ?case by (simp add: createProcess_registry)
next
  case (reset st cfg)
  then show ?case by (simp add: initialize_registry)
next
  case (click st p)
  then show ?case by (simp add: handleProcessListClick_registry)
qed


text \<open>
  Claim C9, as amended. \<^verbatim>\<open>createProcess\<close> rejects exactly \<^verbatim>\<open>NaN\<close> and the numbers that
  are at most zero (zero, the negative numbers, \<^verbatim>\<open>-Infinity\<close>): it reports
  \<open>InvalidProcessSize\<close> and leaves the registry as it was. Every other number is
  accepted, the finite positive ones and \<^verbatim>\<open>Infinity\<close> alike: exactly one process is
  created, unallocated, with the id \<^verbatim>\<open>nextProcessId\<close>, and appended to the end of the
  registry, and \<^verbatim>\<open>nextProcessId\<close> grows by one. In every reachable state the ids of the
  registry are \<open>0, 1, ..., nextProcessId - 1\<close> in this order, so each new id is fresh and
  greater than every earlier one, and the registry is in creation order.
\<close>

theorem createProcess_spec:
  "((isNaN x \<or> js_le x (Fin 0)) \<longleftrightarrow> (x = NaN \<or> x = NegInf \<or> (\<exists>k\<le>0. x = Fin k))) \<and>
   (isNaN x \<or> js_le x (Fin 0) \<longrightarrow> createProcess r x = (Failure InvalidProcessSize, r)) \<and>
   (0 < n \<longrightarrow>
      createProcess r (Fin n) =
        (Success,
         r\<lparr>processes := processes r @
              [\<lparr>pid = nextProcessId r, psize = Bytes n, allocated = False, partitionId = None\<rparr>],
           nextProcessId := nextProcessId r + 1\<rparr>)) \<and>
   createProcess r PosInf =
     (Success,
      r\<lparr>processes := processes r @
           [\<lparr>pid = nextProcessId r, psize = Unbounded, allocated = False, partitionId = None\<rparr>],
        nextProcessId := nextProcessId r + 1\<rparr>) \<and>
   (reachable st \<longrightarrow> map pid (processes st) = [0..<nextProcessId st])"
proof (intro conjI)
  show "(isNaN x \<or> js_le x (Fin 0)) \<longleftrightarrow> (x = NaN \<or> x = NegInf \<or> (\<exists>k\<le>0. x = Fin k))"
    by (cases x) (auto simp: isNaN_def)
  show "isNaN x \<or> js_le x (Fin 0) \<longrightarrow> createProcess r x = (Failure InvalidProcessSize, r)"
    by (simp add: createProcess_def)
  show "0 < n \<longrightarrow>
      createProcess r (Fin n) =
        (Success,
         r\<lparr>processes := processes r @
              [\<lparr>pid = nextProcessId r, psize = Bytes n, allocated = False, partitionId = None\<rparr>],
           nextProcessId := nextProcessId r + 1\<rparr>)"
    by (simp add: createProcess_def isNaN_def pushProcess_def ProcessControlBlock_def)
  show "createProcess r PosInf =
     (Success,
      r\<lparr>processes := processes r @
           [\<lparr>pid = nextProcessId r, psize = Unbounded, allocated = False, partitionId = None\<rparr>],
        nextProcessId := nextProcessId r + 1\<rparr>)"
    by (simp add: createProcess_def isNaN_def pushProcess_def ProcessControlBlock_def)
  show "reachable st \<longrightarrow> map pid (processes st) = [0..<nextProcessId st]"
    using reachable_registry by blast
qed

theorem createProcess_spec_witness:
  "js_le (Fin 0) (Fin 0) \<and> createProcess emptyRegistry (Fin 0) = (Failure InvalidProcessSize, emptyRegistry) \<and>
   isNaN NaN \<and> createProcess emptyRegistry NaN = (Failure InvalidProcessSize, emptyRegistry) \<and>
   createProcess emptyRegistry (Fin 4096) =
     (Success,
      \<lparr>processes = [\<lparr>pid = 0, psize = Bytes 4096, allocated = False, partitionId = None\<rparr>],
        nextProcessId = 1\<rparr>) \<and>
   reachable (setupInitialState staticConfig) \<and>
   map pid (processes (setupInitialState staticConfig)) =
     [0..<nextProcessId (setupInitialState staticConfig)] \<and>
   nextProcessId (setupInitialState staticConfig) = 5"
  using createProcess_spec[of "Fin 0" emptyRegistry 4096 "setupInitialState staticConfig"]
    createProcess_spec[of NaN emptyRegistry 4096 "setupInitialState staticConfig"]
    reachable.start[of staticConfig]
  by (simp add: emptyRegistry_def isNaN_def setupInitialState_def initialize_def defaultSizes_def
      createProcess_def pushProcess_def)

text \<open>
  Claim C9 as stated fails: it has every non-finite input rejected, and \<^verbatim>\<open>Infinity\<close>
  passes the test \<^verbatim>\<open>isNaN(sizeInBytes) || sizeInBytes <= 0\<close> and is registered.
\<close>

theorem createProcess_accepts_Infinity:
  "createProcess emptyRegistry PosInf =
     (Success,
      \<lparr>processes = [\<lparr>pid = 0, psize = Unbounded, allocated = False, partitionId = None\<rparr>],
        nextProcessId = 1\<rparr>) \<and>
   fst (createProcess emptyRegistry PosInf) \<noteq> Failure InvalidProcessSize \<and>
   processes (snd (createProcess emptyRegistry PosInf)) \<noteq> processes emptyRegistry"
  by (simp add: createProcess_def isNaN_def pushProcess_def ProcessControlBlock_def
      emptyRegistry_def)

section \<open>Ownership and the invariant of the reachable states\<close>

lemma ownerIds_append: "ownerIds (xs @ ys) = ownerIds xs @ ownerIds ys"
  by (induction xs) (auto split: option.splits)

lemma set_ownerIds: "set (ownerIds mem) = {p. \<exists>b\<in>set mem. processId b = Some p}"
  by (induction mem) (auto split: option.splits)

lemma consistent_append: "consistent (xs @ ys) \<longleftrightarrow> consistent xs \<and> consistent ys"
  by (simp add: consistent_def)

lemma consistent_Cons: "consistent (b # bs) \<longleftrightarrow> (free b \<longleftrightarrow> processId b = None) \<and> consistent bs"
  by (simp add: consistent_def)

lemma consistent_nth: "consistent mem \<Longrightarrow> i < length mem \<Longrightarrow> free (mem ! i) \<longleftrightarrow> processId (mem ! i) = None"
  by (simp add: consistent_def list_all_length)

text \<open>\<open>release\<close> frees the first region the process owns.\<close>

lemma release_None: "release p mem = None \<longleftrightarrow> p \<notin> set (ownerIds mem)"
  by (induction mem) (auto split: option.splits)

lemma release_append:
  "p \<notin> set (ownerIds pre) \<Longrightarrow> processId b = Some p \<Longrightarrow>
   release p (pre @ b # post) = Some (pre @ b\<lparr>free := True, processId := None\<rparr> # post)"
  by (induction pre) (auto split: option.splits)

lemma release_Some:
  "release p mem = Some mem' \<Longrightarrow>
   \<exists>pre b post. mem = pre @ b # post \<and> p \<notin> set (ownerIds pre) \<and> processId b = Some p \<and>
      mem' = pre @ b\<lparr>free := True, processId := None\<rparr> # post"
proof (induction mem arbitrary: mem')
  case Nil
  then show ?case by simp
next
  case (Cons x xs)
  show ?case
  proof (cases "processId x = Some p")
    case True
    with Cons.prems show ?thesis
      by (intro exI[of _ "[]"] exI[of _ x] exI[of _ xs]) auto
  next
    case False
    with Cons.prems obtain xs' where x: "release p xs = Some xs'" "mem' = x # xs'" by auto
    from Cons.IH[OF x(1)] obtain pre b post where
      "xs = pre @ b # post" "p \<notin> set (ownerIds pre)" "processId b = Some p"
      "xs' = pre @ b\<lparr>free := True, processId := None\<rparr> # post" by blast
    with False x(2) show ?thesis
      by (intro exI[of _ "x # pre"] exI[of _ b] exI[of _ post]) (auto split: option.splits)
  qed
qed

lemma release_ownerIds:
  "release p mem = Some mem' \<Longrightarrow> ownerIds mem' = remove1 p (ownerIds mem)"
  by (induction mem arbitrary: mem') (auto split: option.splits if_splits)

lemma release_consistent:
  "release p mem = Some mem' \<Longrightarrow> consistent mem \<Longrightarrow> consistent mem'"
  by (induction mem arbitrary: mem') (auto simp: consistent_Cons split: option.splits if_splits)

text \<open>Coalescing touches free blocks only.\<close>

lemma mergeFree_ownerIds: "consistent mem \<Longrightarrow> ownerIds (mergeFree mem) = ownerIds mem"
  by (induction mem rule: mergeFree.induct) (auto simp: consistent_Cons split: option.splits)

lemma mergeFree_consistent: "consistent mem \<Longrightarrow> consistent (mergeFree mem)"
  by (induction mem rule: mergeFree.induct) (auto simp: consistent_Cons)

lemma ownerIds_split:
  "i < length mem \<Longrightarrow> processId (mem ! i) = None \<Longrightarrow>
   ownerIds mem = ownerIds (take i mem) @ ownerIds (drop (Suc i) mem)"
proof -
  assume i: "i < length mem" and n: "processId (mem ! i) = None"
  have "ownerIds mem = ownerIds (take i mem @ mem ! i # drop (Suc i) mem)"
    using id_take_nth_drop[OF i] by simp
  then show ?thesis using n by (simp add: ownerIds_append)
qed

lemma consistent_split:
  "i < length mem \<Longrightarrow> consistent mem \<Longrightarrow> consistent (take i mem) \<and> consistent (drop (Suc i) mem)"
  by (metis append_take_drop_id consistent_append consistent_Cons Cons_nth_drop_Suc)

text \<open>The registry after an update of the process with a given id.\<close>

lemma list_all_updateFirst:
  "distinct (map pid procs) \<Longrightarrow>
   list_all Q (updateFirst (\<lambda>q. pid q = i) f procs) \<longleftrightarrow>
     (\<forall>q\<in>set procs. if pid q = i then Q (f q) else Q q)"
proof (induction procs)
  case Nil
  then show ?case by simp
next
  case (Cons x xs)
  show ?case
  proof (cases "pid x = i")
    case True
    with Cons.prems have "\<forall>q\<in>set xs. pid q \<noteq> i" by (auto simp: image_iff)
    with True show ?thesis by (auto simp: list_all_iff)
  next
    case False
    with Cons show ?thesis by simp
  qed
qed

lemma find_distinct:
  "distinct (map pid procs) \<Longrightarrow> p \<in> set procs \<Longrightarrow> find (\<lambda>q. pid q = pid p) procs = Some p"
  by (induction procs) (auto simp: rev_image_eqI)

lemma updateFirst_same:
  "find P xs = Some x \<Longrightarrow> updateFirst P (\<lambda>_. x) xs = xs"
  by (induction xs) (auto split: if_splits)

text \<open>Occupying a free region for a process that owns none keeps the ownership
  invariant; so does releasing a region.\<close>

lemma ownership_occupy:
  assumes own: "ownership mem procs n" and d: "distinct (map pid procs)"
    and p: "process \<in> set procs" "\<not> allocated process" "pid process < n"
    and i: "i < length mem" "free (mem ! i)"
    and b: "processId b' = Some (pid process)" "\<not> free b'"
    and e: "consistent extra" "ownerIds extra = []"
  shows "ownership (take i mem @ b' # extra @ drop (Suc i) mem)
           (updateFirst (\<lambda>q. pid q = pid process)
              (\<lambda>_. process\<lparr>allocated := True, partitionId := a\<rparr>) procs) n"
proof -
  from own have c: "consistent mem" and dist: "distinct (ownerIds mem)"
    and bound: "list_all (\<lambda>p. p < n) (ownerIds mem)"
    and flags: "list_all (\<lambda>q. allocated q \<longleftrightarrow> pid q \<in> set (ownerIds mem)) procs"
    by (simp_all add: ownership_def)
  from c i have none: "processId (mem ! i) = None" by (simp add: consistent_nth)
  note split = ownerIds_split[OF i(1) none]
  from flags p have fresh: "pid process \<notin> set (ownerIds mem)" by (auto simp: list_all_iff)
  let ?mem' = "take i mem @ b' # extra @ drop (Suc i) mem"
  have ids: "ownerIds ?mem' = ownerIds (take i mem) @ pid process # ownerIds (drop (Suc i) mem)"
    using b e by (simp add: ownerIds_append)
  have 1: "consistent ?mem'"
    using consistent_split[OF i(1) c] b e by (simp add: consistent_append consistent_Cons)
  have 2: "distinct (ownerIds ?mem')"
    using dist fresh by (simp add: ids split)
  have 3: "list_all (\<lambda>p. p < n) (ownerIds ?mem')"
    using bound p(3) by (simp add: ids split)
  have s: "set (ownerIds ?mem') = insert (pid process) (set (ownerIds mem))"
    by (simp add: ids split)
  have 4: "list_all (\<lambda>q. allocated q \<longleftrightarrow> pid q \<in> set (ownerIds ?mem'))
             (updateFirst (\<lambda>q. pid q = pid process)
                (\<lambda>_. process\<lparr>allocated := True, partitionId := a\<rparr>) procs)"
    unfolding list_all_updateFirst[OF d] s
    using flags by (auto simp: list_all_iff)
  from 1 2 3 4 show ?thesis by (simp add: ownership_def)
qed

lemma ownership_release:
  assumes own: "ownership mem procs n" and d: "distinct (map pid procs)"
    and r: "release p mem = Some mem'"
  shows "ownership mem' (clearProcess p procs) n"
proof -
  from own have c: "consistent mem" and dist: "distinct (ownerIds mem)"
    and bound: "list_all (\<lambda>p. p < n) (ownerIds mem)"
    and flags: "list_all (\<lambda>q. allocated q \<longleftrightarrow> pid q \<in> set (ownerIds mem)) procs"
    by (simp_all add: ownership_def)
  note ids = release_ownerIds[OF r]
  have s: "set (ownerIds mem') = set (ownerIds mem) - {p}"
    using dist by (simp add: ids)
  have 3: "list_all (\<lambda>p. p < n) (ownerIds mem')"
    using bound by (auto simp: list_all_iff s)
  have 4: "list_all (\<lambda>q. allocated q \<longleftrightarrow> pid q \<in> set (ownerIds mem')) (clearProcess p procs)"
    unfolding clearProcess_def list_all_updateFirst[OF d] s
    using flags by (auto simp: list_all_iff)
  from release_consistent[OF r c] dist 3 4 show ?thesis
    by (simp add: ownership_def ids)
qed

lemma ownership_mergeFree:
  "ownership mem procs n \<Longrightarrow> ownership (mergeFree mem) procs n"
  by (simp add: ownership_def mergeFree_ownerIds mergeFree_consistent)

section \<open>The layout of the dynamic manager's list\<close>

lemma chain_append:
  "chain lo (xs @ ys) hi \<longleftrightarrow>
     chain lo xs (lo + sum_list (map bsize xs)) \<and> chain (lo + sum_list (map bsize xs)) ys hi"
  by (induction xs arbitrary: lo) (auto simp: add.assoc)

lemma chain_cong:
  "map address mem' = map address mem \<Longrightarrow> map bsize mem' = map bsize mem \<Longrightarrow>
   chain lo mem' hi = chain lo mem hi"
  by (induction mem arbitrary: mem' lo) auto

lemma map_replace_nth:
  assumes "i < length xs" "f b = f (xs ! i)"
  shows "map f (take i xs @ b # drop (Suc i) xs) = map f xs"
proof -
  have "map f (take i xs @ b # drop (Suc i) xs) = map f (take i xs @ xs ! i # drop (Suc i) xs)"
    using assms(2) by simp
  also have "take i xs @ xs ! i # drop (Suc i) xs = xs"
    using id_take_nth_drop[OF assms(1)] by simp
  finally show ?thesis .
qed

lemma chain_release: "release p mem = Some mem' \<Longrightarrow> chain lo mem hi \<Longrightarrow> chain lo mem' hi"
  by (induction mem arbitrary: mem' lo) (auto split: if_splits)

lemma chain_mergeFree: "chain lo mem hi \<Longrightarrow> chain lo (mergeFree mem) hi"
  by (induction mem arbitrary: lo rule: mergeFree.induct) (auto simp: add.assoc)

lemma chain_split_block:
  assumes c: "chain lo mem hi" and i: "i < length mem" and n: "0 < n" "n \<le> bsize (mem ! i)"
    and b: "address b' = address (mem ! i)" "bsize b' = n"
  shows "chain lo (take i mem @ b' #
           (if n < bsize (mem ! i)
            then [\<lparr>address = address (mem ! i) + n, bsize = bsize (mem ! i) - n,
                   free = True, processId = None\<rparr>]
            else []) @ drop (Suc i) mem) hi"
proof -
  let ?mid = "lo + sum_list (map bsize (take i mem))"
  from c id_take_nth_drop[OF i] have "chain lo (take i mem @ mem ! i # drop (Suc i) mem) hi"
    by simp
  then have pre: "chain lo (take i mem) ?mid"
    and rest: "chain ?mid (mem ! i # drop (Suc i) mem) hi"
    by (simp_all add: chain_append)
  from rest n b have "chain ?mid (b' #
           (if n < bsize (mem ! i)
            then [\<lparr>address = address (mem ! i) + n, bsize = bsize (mem ! i) - n,
                   free = True, processId = None\<rparr>]
            else []) @ drop (Suc i) mem) hi"
    by (auto simp: add.assoc)
  with pre show ?thesis by (simp add: chain_append)
qed

lemma noAdjacentFree_append:
  "noAdjacentFree (pre @ x # post) \<longleftrightarrow> noAdjacentFree (pre @ [x]) \<and> noAdjacentFree (x # post)"
  by (induction pre rule: noAdjacentFree.induct) (auto split: list.splits)

lemma noAdjacentFree_last:
  "noAdjacentFree (pre @ [b]) \<Longrightarrow> (free c \<Longrightarrow> free b) \<Longrightarrow> noAdjacentFree (pre @ [c])"
  by (induction pre rule: noAdjacentFree.induct) auto

lemma noAdjacentFree_occupy:
  assumes na: "noAdjacentFree mem" and i: "i < length mem" "free (mem ! i)"
    and b: "\<not> free b'" and e: "length extra \<le> 1"
  shows "noAdjacentFree (take i mem @ b' # extra @ drop (Suc i) mem)"
proof -
  from na id_take_nth_drop[OF i(1)]
  have "noAdjacentFree (take i mem @ mem ! i # drop (Suc i) mem)" by simp
  then have pre: "noAdjacentFree (take i mem @ [mem ! i])"
    and post: "noAdjacentFree (mem ! i # drop (Suc i) mem)"
    using noAdjacentFree_append by blast+
  from b have 1: "noAdjacentFree (take i mem @ [b'])"
    by (intro noAdjacentFree_last[OF pre]) simp
  from post i(2) have 2: "noAdjacentFree (x # drop (Suc i) mem)" for x
    by (cases "drop (Suc i) mem") auto
  have "noAdjacentFree (b' # extra @ drop (Suc i) mem)"
  proof (cases extra)
    case Nil
    with b 2[of b'] show ?thesis by simp
  next
    case (Cons x xs)
    with e have "extra = [x]" by simp
    with b 2[of x] show ?thesis by simp
  qed
  with 1 show ?thesis using noAdjacentFree_append by blast
qed

section \<open>Every reachable state satisfies the invariant\<close>

lemma allocateDynamic_result:
  "allocateDynamic mm process = (Failure AllocationFailure, mm, process) \<or>
   (\<exists>n i. psize process = Bytes n \<and> i < length (memory mm) \<and> qualifies n (memory mm ! i) \<and>
      findFit (fitAlgorithm mm) (memory mm) n = int i \<and>
      allocateDynamic mm process =
        (Success,
         mm\<lparr>memory := take i (memory mm) @
            (memory mm ! i)\<lparr>bsize := n, free := False, processId := Some (pid process)\<rparr> #
            (if n < bsize (memory mm ! i)
             then [\<lparr>address = address (memory mm ! i) + n, bsize = bsize (memory mm ! i) - n,
                    free = True, processId = None\<rparr>]
             else []) @
            drop (Suc i) (memory mm)\<rparr>,
         process\<lparr>allocated := True, partitionId := Some (address (memory mm ! i))\<rparr>))"
proof (cases "psize process")
  case Unbounded
  then show ?thesis using allocateDynamic_not_found by blast
next
  case (Bytes n)
  from findFit_cases[of "fitAlgorithm mm" "memory mm" n] show ?thesis
  proof (elim disjE exE conjE)
    assume "findFit (fitAlgorithm mm) (memory mm) n = - 1"
    with Bytes show ?thesis using allocateDynamic_not_found by blast
  next
    fix i assume i: "i < length (memory mm)" "findFit (fitAlgorithm mm) (memory mm) n = int i"
      "qualifies n (memory mm ! i)"
    from allocateDynamic_found[OF Bytes i(1) i(2)] Bytes i show ?thesis by blast
  qed
qed

lemma allocateStatic_result:
  "allocateStatic mm process = (Failure AllocationFailure, mm, process) \<or>
   (\<exists>i. i < length (memory mm) \<and> fits (psize process) (memory mm ! i) \<and>
      (\<forall>j<i. \<not> fits (psize process) (memory mm ! j)) \<and>
      allocateStatic mm process =
        (Success,
         mm\<lparr>memory := take i (memory mm) @
            (memory mm ! i)\<lparr>free := False, processId := Some (pid process)\<rparr> #
            drop (Suc i) (memory mm)\<rparr>,
         process\<lparr>allocated := True, partitionId := Some (int (partId (memory mm ! i)))\<rparr>))"
proof (cases "staticScan (memory mm) process")
  case None
  then show ?thesis by (simp add: allocateStatic_def)
next
  case (Some r)
  then obtain mem' process' where s: "staticScan (memory mm) process = Some (mem', process')"
    by (cases r) simp
  from staticScan_Some[OF s] s show ?thesis
    by (auto simp: allocateStatic_def upd_conv_take_nth_drop)
qed

lemma ownership_fresh:
  "consistent mem \<Longrightarrow> ownerIds mem = [] \<Longrightarrow>
   ownership mem (map (\<lambda>p. p\<lparr>allocated := False, partitionId := None\<rparr>) procs) n"
  by (simp add: ownership_def list_all_iff)

lemma invariant_initialize:
  assumes "map pid (processes r) = [0..<nextProcessId r]"
    "list_all (\<lambda>p. validSize (psize p)) (processes r)"
  shows "invariant (initialize cfg r)"
proof -
  show ?thesis
  proof (cases "algorithm cfg = ''static''")
    case True
    have "ownership (memory (newStaticMemoryManager TOTAL_MEMORY))
        (map (\<lambda>p. p\<lparr>allocated := False, partitionId := None\<rparr>) (processes r)) (nextProcessId r)"
      by (rule ownership_fresh) (simp_all add: newStaticMemoryManager_def partitionSizes_def consistent_def)
    moreover have "chain OS_MEMORY_SIZE (memory (newStaticMemoryManager TOTAL_MEMORY))
        (OS_MEMORY_SIZE + sum_list partitionSizes)"
      by (simp add: newStaticMemoryManager_def partitionSizes_def)
    ultimately show ?thesis using True assms
      by (simp add: invariant_def initialize_def comp_def list_all_iff)
  next
    case False
    have "ownership (memory (newDynamicMemoryManager TOTAL_MEMORY c f))
        (map (\<lambda>p. p\<lparr>allocated := False, partitionId := None\<rparr>) (processes r)) (nextProcessId r)"
      for c f
      by (rule ownership_fresh) (simp_all add: newDynamicMemoryManager_def consistent_def)
    moreover have "chain OS_MEMORY_SIZE (memory (newDynamicMemoryManager TOTAL_MEMORY c f)) TOTAL_MEMORY"
      for c f
      by (simp add: newDynamicMemoryManager_def TOTAL_MEMORY_def OS_MEMORY_SIZE_def)
    moreover have "noAdjacentFree (memory (newDynamicMemoryManager TOTAL_MEMORY c f))" for c f
      by (simp add: newDynamicMemoryManager_def)
    ultimately show ?thesis using False assms
      by (simp add: invariant_def initialize_def comp_def list_all_iff)
  qed
qed

lemma ownership_push:
  "ownership mem procs n \<Longrightarrow> ownership mem (procs @ [ProcessControlBlock n s]) (Suc n)"
  by (auto simp: ownership_def ProcessControlBlock_def list_all_iff)

lemma invariant_pushProcess:
  "invariant st \<Longrightarrow> validSize s \<Longrightarrow> invariant (pushProcess s st)"
  by (auto simp: invariant_def pushProcess_def ownership_push[unfolded ProcessControlBlock_def]
      ProcessControlBlock_def split: manager.splits)

lemma invariant_createProcess: "invariant st \<Longrightarrow> invariant (snd (createProcess st x))"
  by (cases x) (auto simp: createProcess_def isNaN_def invariant_pushProcess)

lemma list_all_updateFirst_weak:
  "list_all Q xs \<Longrightarrow> (\<And>x. x \<in> set xs \<Longrightarrow> P x \<Longrightarrow> Q (f x)) \<Longrightarrow> list_all Q (updateFirst P f xs)"
  by (induction xs) auto

lemma invariant_deallocate:
  assumes inv: "invariant st"
  shows "invariant (snd (handleProcessListClick st i DeallocateButton))"
proof -
  from inv have reg: "map pid (processes st) = [0..<nextProcessId st]"
    and sizes: "list_all (\<lambda>p. validSize (psize p)) (processes st)"
    by (simp_all add: invariant_def)
  from reg have d: "distinct (map pid (processes st))" by simp
  have reg': "map pid (clearProcess i (processes st)) = [0..<nextProcessId st]"
    using reg by (simp add: map_pid_clearProcess)
  have sizes': "list_all (\<lambda>p. validSize (psize p)) (clearProcess i (processes st))"
    unfolding clearProcess_def
    by (rule list_all_updateFirst_weak[OF sizes]) (use sizes in \<open>simp add: list_all_iff\<close>)
  show ?thesis
  proof (cases "memoryManager st")
    case (StaticManager mm)
    with inv have own: "ownership (memory mm) (processes st) (nextProcessId st)"
      and ch: "chain OS_MEMORY_SIZE (memory mm) (OS_MEMORY_SIZE + sum_list partitionSizes)"
      by (simp_all add: invariant_def)
    show ?thesis
    proof (cases "release i (memory mm)")
      case None
      with StaticManager inv show ?thesis
        by (simp add: handleProcessListClick_def deallocate_def deallocateStatic_def invariant_def)
    next
      case (Some mem')
      from ownership_release[OF own d Some] chain_release[OF Some ch] StaticManager Some reg' sizes'
      show ?thesis
        by (simp add: handleProcessListClick_def deallocate_def deallocateStatic_def invariant_def)
    qed
  next
    case (DynamicManager mm)
    with inv have own: "ownership (memory mm) (processes st) (nextProcessId st)"
      and ch: "chain OS_MEMORY_SIZE (memory mm) TOTAL_MEMORY"
      and na: "coalesceEnabled mm \<longrightarrow> noAdjacentFree (memory mm)"
      by (simp_all add: invariant_def)
    show ?thesis
    proof (cases "release i (memory mm)")
      case None
      with DynamicManager inv show ?thesis
        by (simp add: handleProcessListClick_def deallocate_def deallocateDynamic_def invariant_def)
    next
      case (Some mem')
      note own' = ownership_release[OF own d Some]
      note ch' = chain_release[OF Some ch]
      show ?thesis
      proof (cases "coalesceEnabled mm")
        case True
        from ownership_mergeFree[OF own'] chain_mergeFree[OF ch'] noAdjacentFree_mergeFree[of mem']
          True DynamicManager Some reg' sizes'
        show ?thesis
          by (simp add: handleProcessListClick_def deallocate_def deallocateDynamic_def
              invariant_def coalesce_mergeFree)
      next
        case False
        with own' ch' DynamicManager Some reg' sizes' show ?thesis
          by (simp add: handleProcessListClick_def deallocate_def deallocateDynamic_def
              invariant_def)
      qed
    qed
  qed
qed

lemma invariant_allocate:
  assumes inv: "invariant st" and p: "p \<in> set (processes st)" "\<not> allocated p"
  shows "invariant (snd (handleProcessListClick st (pid p) AllocateButton))"
proof -
  from inv have reg: "map pid (processes st) = [0..<nextProcessId st]"
    and sizes: "list_all (\<lambda>p. validSize (psize p)) (processes st)"
    by (simp_all add: invariant_def)
  from reg have d: "distinct (map pid (processes st))" by simp
  note f = find_distinct[OF d p(1)]
  from p(1) have "pid p \<in> set (map pid (processes st))" by simp
  with reg have bound: "pid p < nextProcessId st" by simp
  from sizes p(1) have vs: "validSize (psize p)" by (simp add: list_all_iff)
  have same: "updateFirst (\<lambda>q. pid q = pid p) (\<lambda>_. p) (processes st) = processes st"
    using f by (rule updateFirst_same)
  let ?procs' = "\<lambda>a. updateFirst (\<lambda>q. pid q = pid p)
                     (\<lambda>_. p\<lparr>allocated := True, partitionId := a\<rparr>) (processes st)"
  have "map pid (?procs' a) = map pid (processes st)" for a
    by (rule map_pid_updateFirst) simp
  with reg have reg': "map pid (?procs' a) = [0..<nextProcessId st]" for a
    by simp
  have sizes': "list_all (\<lambda>p. validSize (psize p)) (?procs' a)" for a
    using sizes by (rule list_all_updateFirst_weak) (simp add: vs)
  show ?thesis
  proof (cases "memoryManager st")
    case (StaticManager mm)
    with inv have own: "ownership (memory mm) (processes st) (nextProcessId st)"
      and ch: "chain OS_MEMORY_SIZE (memory mm) (OS_MEMORY_SIZE + sum_list partitionSizes)"
      by (simp_all add: invariant_def)
    from allocateStatic_result[of mm p] show ?thesis
    proof (elim disjE exE conjE)
      assume "allocateStatic mm p = (Failure AllocationFailure, mm, p)"
      with StaticManager f same inv show ?thesis
        by (simp add: handleProcessListClick_def allocate_def invariant_def)
    next
      fix i
      assume i: "i < length (memory mm)" "fits (psize p) (memory mm ! i)"
        and res: "allocateStatic mm p =
          (Success,
           mm\<lparr>memory := take i (memory mm) @
              (memory mm ! i)\<lparr>free := False, processId := Some (pid p)\<rparr> #
              drop (Suc i) (memory mm)\<rparr>,
           p\<lparr>allocated := True, partitionId := Some (int (partId (memory mm ! i)))\<rparr>)"
      from i(2) have fr: "free (memory mm ! i)" by (simp add: fits_def)
      from ownership_occupy[OF own d p bound i(1) fr, of
          "(memory mm ! i)\<lparr>free := False, processId := Some (pid p)\<rparr>" "[]"
          "Some (int (partId (memory mm ! i)))"]
      have "ownership (take i (memory mm) @
              (memory mm ! i)\<lparr>free := False, processId := Some (pid p)\<rparr> #
              drop (Suc i) (memory mm))
            (?procs' (Some (int (partId (memory mm ! i))))) (nextProcessId st)"
        by (simp add: consistent_def)
      moreover have "chain OS_MEMORY_SIZE (take i (memory mm) @
              (memory mm ! i)\<lparr>free := False, processId := Some (pid p)\<rparr> #
              drop (Suc i) (memory mm)) (OS_MEMORY_SIZE + sum_list partitionSizes) =
            chain OS_MEMORY_SIZE (memory mm) (OS_MEMORY_SIZE + sum_list partitionSizes)"
        by (rule chain_cong; rule map_replace_nth[OF i(1)]) simp_all
      moreover note ch
      ultimately show ?thesis using StaticManager f res reg' sizes'
        by (simp add: handleProcessListClick_def allocate_def invariant_def)
    qed
  next
    case (DynamicManager mm)
    with inv have own: "ownership (memory mm) (processes st) (nextProcessId st)"
      and ch: "chain OS_MEMORY_SIZE (memory mm) TOTAL_MEMORY"
      and na: "coalesceEnabled mm \<longrightarrow> noAdjacentFree (memory mm)"
      by (simp_all add: invariant_def)
    from allocateDynamic_result[of mm p] show ?thesis
    proof (elim disjE exE conjE)
      assume "allocateDynamic mm p = (Failure AllocationFailure, mm, p)"
      with DynamicManager f same inv show ?thesis
        by (simp add: handleProcessListClick_def allocate_def invariant_def)
    next
      fix n i
      assume n: "psize p = Bytes n" and i: "i < length (memory mm)"
        and q: "qualifies n (memory mm ! i)"
        and res: "allocateDynamic mm p =
          (Success,
           mm\<lparr>memory := take i (memory mm) @
              (memory mm ! i)\<lparr>bsize := n, free := False, processId := Some (pid p)\<rparr> #
              (if n < bsize (memory mm ! i)
               then [\<lparr>address = address (memory mm ! i) + n, bsize = bsize (memory mm ! i) - n,
                      free = True, processId = None\<rparr>]
               else []) @
              drop (Suc i) (memory mm)\<rparr>,
           p\<lparr>allocated := True, partitionId := Some (address (memory mm ! i))\<rparr>)"
      let ?b' = "(memory mm ! i)\<lparr>bsize := n, free := False, processId := Some (pid p)\<rparr>"
      let ?extra = "if n < bsize (memory mm ! i)
               then [\<lparr>address = address (memory mm ! i) + n, bsize = bsize (memory mm ! i) - n,
                      free = True, processId = None\<rparr>]
               else []"
      let ?mem' = "take i (memory mm) @ ?b' # ?extra @ drop (Suc i) (memory mm)"
      from q have fr: "free (memory mm ! i)" and le: "n \<le> bsize (memory mm ! i)"
        by (simp_all add: qualifies_def)
      from vs n have pos: "0 < n" by simp
      have own': "ownership ?mem' (?procs' (Some (address (memory mm ! i)))) (nextProcessId st)"
        by (rule ownership_occupy[OF own d p bound i fr]) (simp_all add: consistent_def)
      have ch': "chain OS_MEMORY_SIZE ?mem' TOTAL_MEMORY"
        by (rule chain_split_block[OF ch i pos le]) simp_all
      have na': "coalesceEnabled mm \<longrightarrow> noAdjacentFree ?mem'"
        using na noAdjacentFree_occupy[OF _ i fr, of ?b' ?extra] by simp
      from own' ch' na' DynamicManager f res reg' sizes' show ?thesis
        by (simp add: handleProcessListClick_def allocate_def invariant_def)
    qed
  qed
qed

lemma reachable_invariant: "reachable st \<Longrightarrow> invariant st"
proof (induction rule: reachable.induct)
  case (start cfg)
  show ?case unfolding setupInitialState_def
    by (rule invariant_initialize)
      (simp_all add: defaultSizes_def createProcess_def isNaN_def pushProcess_def
        ProcessControlBlock_def upt_rec)
next
  case (addProcess st x)
  then show ?case by (simp add: invariant_createProcess)
next
  case (reset st cfg)
  then show ?case by (intro invariant_initialize) (simp_all add: invariant_def)
next
  case (click st p)
  then show ?case
    by (cases "allocated p") (simp_all add: invariant_allocate invariant_deallocate)
qed

section \<open>An example run\<close>

lemma run0_eq:
  "run0 = \<lparr>processes = defaultProcesses, nextProcessId = 5,
           memoryManager = DynamicManager (newDynamicMemoryManager TOTAL_MEMORY True ''first'')\<rparr>"
  by (simp add: run0_def defaultProcesses_def setupInitialState_def initialize_def
      defaultSizes_def createProcess_def isNaN_def pushProcess_def ProcessControlBlock_def
      dynamicConfig_def)

lemma run1_eq:
  "run1 = \<lparr>processes = defaultProcesses[0 := (defaultProcesses ! 0)\<lparr>allocated := True,
                                              partitionId := Some 2097152\<rparr>],
           nextProcessId = 5,
           memoryManager = DynamicManager
             \<lparr>totalSize = 16777216,
              memory = [\<lparr>address = 2097152, bsize = 524288, free = False, processId = Some 0\<rparr>,
                        \<lparr>address = 2621440, bsize = 14155776, free = True, processId = None\<rparr>],
              coalesceEnabled = True, fitAlgorithm = ''first''\<rparr>\<rparr>"
  by (simp add: run1_def run0_eq defaultProcesses_def newDynamicMemoryManager_def
      TOTAL_MEMORY_def OS_MEMORY_SIZE_def handleProcessListClick_def allocate_def
      allocateDynamic_def findFit_def findFirstFit_def Let_def)

lemma run2_eq:
  "run2 = \<lparr>processes = defaultProcesses[0 := (defaultProcesses ! 0)\<lparr>allocated := True,
                                              partitionId := Some 2097152\<rparr>,
                                         1 := (defaultProcesses ! 1)\<lparr>allocated := True,
                                              partitionId := Some 2621440\<rparr>],
           nextProcessId = 5,
           memoryManager = DynamicManager
             \<lparr>totalSize = 16777216,
              memory = [\<lparr>address = 2097152, bsize = 524288, free = False, processId = Some 0\<rparr>,
                        \<lparr>address = 2621440, bsize = 1572864, free = False, processId = Some 1\<rparr>,
                        \<lparr>address = 4194304, bsize = 12582912, free = True, processId = None\<rparr>],
              coalesceEnabled = True, fitAlgorithm = ''first''\<rparr>\<rparr>"
  by (simp add: run2_def run1_eq defaultProcesses_def handleProcessListClick_def allocate_def
      allocateDynamic_def findFit_def findFirstFit_def Let_def)

lemma run3_eq:
  "run3 = \<lparr>processes = defaultProcesses[1 := (defaultProcesses ! 1)\<lparr>allocated := True,
                                              partitionId := Some 2621440\<rparr>],
           nextProcessId = 5, memoryManager = DynamicManager run3Manager\<rparr>"
  by (simp add: run3_def run2_eq run3Manager_def defaultProcesses_def handleProcessListClick_def
      deallocate_def deallocateDynamic_def clearProcess_def coalesce_def coalesceLoop.simps)

lemma reachable_run1: "reachable run1"
proof -
  have 0: "reachable run0" unfolding run0_def by (rule reachable.start)
  have "reachable (snd (handleProcessListClick run0 (pid (processes run0 ! 0))
          (if allocated (processes run0 ! 0) then DeallocateButton else AllocateButton)))"
    by (rule reachable.click[OF 0]) (simp add: run0_eq defaultProcesses_def)
  then show ?thesis by (simp add: run1_def run0_eq defaultProcesses_def)
qed

lemma reachable_run2: "reachable run2"
proof -
  have "reachable (snd (handleProcessListClick run1 (pid (processes run1 ! 1))
          (if allocated (processes run1 ! 1) then DeallocateButton else AllocateButton)))"
    by (rule reachable.click[OF reachable_run1]) (simp add: run1_eq defaultProcesses_def)
  then show ?thesis by (simp add: run2_def run1_eq defaultProcesses_def)
qed

lemma reachable_run3: "reachable run3"
proof -
  have "reachable (snd (handleProcessListClick run2 (pid (processes run2 ! 0))
          (if allocated (processes run2 ! 0) then DeallocateButton else AllocateButton)))"
    by (rule reachable.click[OF reachable_run2]) (simp add: run2_eq defaultProcesses_def)
  then show ?thesis by (simp add: run3_def run2_eq defaultProcesses_def)
qed

section \<open>Allocation followed by deallocation\<close>

lemma mergeFree_after_prefix:
  "noAdjacentFree (pre @ [b]) \<Longrightarrow> free b \<Longrightarrow> free b1 \<Longrightarrow> mergeFree (b1 # post') = b # post \<Longrightarrow>
   mergeFree (pre @ b1 # post') = pre @ b # post"
proof (induction pre)
  case Nil
  then show ?case by simp
next
  case (Cons x pre)
  show ?case
  proof (cases pre)
    case Nil
    with Cons.prems show ?thesis by auto
  next
    case (Cons y ys)
    with Cons.prems Cons.IH show ?thesis by auto
  qed
qed

text \<open>Splitting a free block of a coalesced list and freeing the first part again gives
  the list back.\<close>

lemma split_then_merge:
  assumes na: "noAdjacentFree mem" and c: "consistent mem"
    and i: "i < length mem" "free (mem ! i)" and le: "n \<le> bsize (mem ! i)"
  shows "mergeFree (take i mem @
           (mem ! i)\<lparr>bsize := n, free := True, processId := None\<rparr> #
           (if n < bsize (mem ! i)
            then [\<lparr>address = address (mem ! i) + n, bsize = bsize (mem ! i) - n,
                   free = True, processId = None\<rparr>]
            else []) @ drop (Suc i) mem) = mem"
proof -
  let ?b = "mem ! i"
  let ?b1 = "?b\<lparr>bsize := n, free := True, processId := None\<rparr>"
  let ?post = "drop (Suc i) mem"
  have mem: "mem = take i mem @ ?b # ?post" using id_take_nth_drop[OF i(1)] .
  from c i have none: "processId ?b = None" by (simp add: consistent_nth)
  from na mem have "noAdjacentFree (take i mem @ ?b # ?post)" by simp
  then have pre: "noAdjacentFree (take i mem @ [?b])" and post: "noAdjacentFree (?b # ?post)"
    using noAdjacentFree_append by blast+
  have whole: "mergeFree (?b # ?post) = ?b # ?post" using post by (rule mergeFree_id)
  have "mergeFree (?b1 #
           (if n < bsize ?b
            then [\<lparr>address = address ?b + n, bsize = bsize ?b - n, free = True, processId = None\<rparr>]
            else []) @ ?post) = ?b # ?post"
  proof (cases "n < bsize ?b")
    case True
    have "?b1\<lparr>bsize := n + (bsize ?b - n)\<rparr> = ?b" using i(2) none by simp
    with True whole show ?thesis by simp
  next
    case False
    with le have "n = bsize ?b" by simp
    then have "?b1 = ?b" using i(2) none by simp
    with False whole show ?thesis by simp
  qed
  from mergeFree_after_prefix[OF pre i(2) _ this] have
    "mergeFree (take i mem @ ?b1 #
           (if n < bsize ?b
            then [\<lparr>address = address ?b + n, bsize = bsize ?b - n, free = True, processId = None\<rparr>]
            else []) @ ?post) = take i mem @ ?b # ?post"
    by simp
  with mem show ?thesis by simp
qed

lemma allocate_then_deallocate:
  assumes na: "noAdjacentFree (memory mm)" and c: "consistent (memory mm)"
    and co: "coalesceEnabled mm"
    and fresh: "pid process \<notin> set (ownerIds (memory mm))"
    and ok: "allocateDynamic mm process = (Success, mm', process')"
  shows "fst (deallocateDynamic mm' procs (pid process)) = mm"
proof -
  from allocateDynamic_result[of mm process] ok obtain n i where
    i: "i < length (memory mm)" and q: "qualifies n (memory mm ! i)"
    and mm': "mm' = mm\<lparr>memory := take i (memory mm) @
              (memory mm ! i)\<lparr>bsize := n, free := False, processId := Some (pid process)\<rparr> #
              (if n < bsize (memory mm ! i)
               then [\<lparr>address = address (memory mm ! i) + n, bsize = bsize (memory mm ! i) - n,
                      free = True, processId = None\<rparr>]
               else []) @
              drop (Suc i) (memory mm)\<rparr>"
    by auto
  define extra where "extra = (if n < bsize (memory mm ! i)
               then [\<lparr>address = address (memory mm ! i) + n, bsize = bsize (memory mm ! i) - n,
                      free = True, processId = None\<rparr>]
               else [])"
  define occ where "occ = (memory mm ! i)\<lparr>bsize := n, free := False, processId := Some (pid process)\<rparr>"
  define mem2 where "mem2 = take i (memory mm) @ occ\<lparr>free := True, processId := None\<rparr> #
      extra @ drop (Suc i) (memory mm)"
  have mem1: "memory mm' = take i (memory mm) @ occ # extra @ drop (Suc i) (memory mm)"
    and co': "coalesceEnabled mm' = coalesceEnabled mm"
    and undo: "mm'\<lparr>memory := memory mm\<rparr> = mm"
    by (simp_all add: mm' occ_def extra_def)
  from q have fr: "free (memory mm ! i)" and le: "n \<le> bsize (memory mm ! i)"
    by (simp_all add: qualifies_def)
  from c i fr have none: "processId (memory mm ! i) = None" by (simp add: consistent_nth)
  from fresh have pre: "pid process \<notin> set (ownerIds (take i (memory mm)))"
    using ownerIds_split[OF i none] by simp
  have rel: "release (pid process) (memory mm') = Some mem2"
    unfolding mem1 mem2_def by (rule release_append[OF pre]) (simp add: occ_def)
  have "mergeFree mem2 = memory mm"
    using split_then_merge[OF na c i fr le] by (simp add: mem2_def occ_def extra_def)
  with co co' rel undo show ?thesis
    by (simp add: deallocateDynamic_def coalesce_mergeFree)
qed

text \<open>
  Claim C6. In dynamic mode with coalescing enabled, in every reachable state and for
  every registered process that is not allocated: when \<^verbatim>\<open>allocate(process)\<close> succeeds,
  \<^verbatim>\<open>deallocate(process.id)\<close> called on the result gives back the manager as it was before
  the allocation, so the block list has the same blocks with the same addresses, sizes,
  free flags and owners.
\<close>

theorem allocate_deallocate_roundtrip:
  assumes "reachable st" "memoryManager st = DynamicManager mm" "coalesceEnabled mm"
    and "process \<in> set (processes st)" "\<not> allocated process"
    and "allocateDynamic mm process = (Success, mm', process')"
  shows "memory (fst (deallocateDynamic mm' procs (pid process))) = memory mm \<and>
         fst (deallocateDynamic mm' procs (pid process)) = mm"
proof -
  from reachable_invariant[OF assms(1)] assms(2,3)
  have own: "ownership (memory mm) (processes st) (nextProcessId st)"
    and na: "noAdjacentFree (memory mm)"
    by (simp_all add: invariant_def)
  from own have c: "consistent (memory mm)"
    and flags: "list_all (\<lambda>q. allocated q \<longleftrightarrow> pid q \<in> set (ownerIds (memory mm))) (processes st)"
    by (simp_all add: ownership_def)
  from flags assms(4,5) have fresh: "pid process \<notin> set (ownerIds (memory mm))"
    by (auto simp: list_all_iff)
  from allocate_then_deallocate[OF na c assms(3) fresh assms(6)] show ?thesis by simp
qed

theorem allocate_deallocate_roundtrip_witness:
  "reachable run3 \<and> memoryManager run3 = DynamicManager run3Manager \<and>
   coalesceEnabled run3Manager \<and> defaultProcesses ! 3 \<in> set (processes run3) \<and>
   \<not> allocated (defaultProcesses ! 3) \<and>
   allocateDynamic run3Manager (defaultProcesses ! 3) =
     (Success,
      run3Manager\<lparr>memory :=
        [\<lparr>address = 2097152, bsize = 524288, free = True, processId = None\<rparr>,
         \<lparr>address = 2621440, bsize = 1572864, free = False, processId = Some 1\<rparr>,
         \<lparr>address = 4194304, bsize = 716800, free = False, processId = Some 3\<rparr>,
         \<lparr>address = 4911104, bsize = 11866112, free = True, processId = None\<rparr>]\<rparr>,
      (defaultProcesses ! 3)\<lparr>allocated := True, partitionId := Some 4194304\<rparr>) \<and>
   memory (fst (deallocateDynamic
       (run3Manager\<lparr>memory :=
        [\<lparr>address = 2097152, bsize = 524288, free = True, processId = None\<rparr>,
         \<lparr>address = 2621440, bsize = 1572864, free = False, processId = Some 1\<rparr>,
         \<lparr>address = 4194304, bsize = 716800, free = False, processId = Some 3\<rparr>,
         \<lparr>address = 4911104, bsize = 11866112, free = True, processId = None\<rparr>]\<rparr>)
       (processes run3) 3)) = memory run3Manager"
proof -
  have r: "reachable run3" by (rule reachable_run3)
  have m: "memoryManager run3 = DynamicManager run3Manager" by (simp add: run3_eq)
  have c: "coalesceEnabled run3Manager" by (simp add: run3Manager_def)
  have p: "defaultProcesses ! 3 \<in> set (processes run3)" by (simp add: run3_eq defaultProcesses_def)
  have u: "\<not> allocated (defaultProcesses ! 3)" by (simp add: defaultProcesses_def)
  have a: "allocateDynamic run3Manager (defaultProcesses ! 3) =
     (Success,
      run3Manager\<lparr>memory :=
        [\<lparr>address = 2097152, bsize = 524288, free = True, processId = None\<rparr>,
         \<lparr>address = 2621440, bsize = 1572864, free = False, processId = Some 1\<rparr>,
         \<lparr>address = 4194304, bsize = 716800, free = False, processId = Some 3\<rparr>,
         \<lparr>address = 4911104, bsize = 11866112, free = True, processId = None\<rparr>]\<rparr>,
      (defaultProcesses ! 3)\<lparr>allocated := True, partitionId := Some 4194304\<rparr>)"
    by (simp add: run3Manager_def defaultProcesses_def allocateDynamic_def findFit_def
        findFirstFit_def Let_def)
  have i: "pid (defaultProcesses ! 3) = 3" by (simp add: defaultProcesses_def)
  from allocate_deallocate_roundtrip[OF r m c p u a, of "processes run3"] r m c p u a
  show ?thesis by (simp add: i)
qed

section \<open>The region coverage\<close>

lemma chain_le: "chain lo mem hi \<Longrightarrow> lo \<le> hi"
  by (induction mem arbitrary: lo) force+

lemma chain_lower: "chain lo mem hi \<Longrightarrow> b \<in> set mem \<Longrightarrow> lo \<le> address b"
  by (induction mem arbitrary: lo) force+

lemma chain_layout:
  "chain lo mem hi \<Longrightarrow>
   ascending mem \<and> contiguous mem \<and> nonOverlapping mem \<and> positiveSizes mem \<and> covers mem lo hi"
proof (induction mem arbitrary: lo)
  case Nil
  then show ?case
    by (simp add: ascending_def nonOverlapping_def positiveSizes_def covers_def)
next
  case (Cons b bs)
  then have b: "address b = lo" "0 < bsize b" and rest: "chain (lo + bsize b) bs hi" by simp_all
  note ih = Cons.IH[OF rest]
  have lower: "lo + bsize b \<le> address x" if "x \<in> set bs" for x
    using chain_lower[OF rest that] .
  have 1: "ascending (b # bs)"
    using ih b lower by (fastforce simp: ascending_def)
  have 2: "contiguous (b # bs)"
    using ih b rest by (cases bs) auto
  have 3: "nonOverlapping (b # bs)"
    using ih b lower by (auto simp: nonOverlapping_def)
  have 4: "positiveSizes (b # bs)"
    using ih b by (simp add: positiveSizes_def)
  from ih have "\<Union> (set (map extent bs)) = {lo + bsize b ..< hi}" by (simp add: covers_def)
  then have 5: "covers (b # bs) lo hi"
    using b chain_le[OF rest] by (auto simp: covers_def extent_def)
  from 1 2 3 4 5 show ?case by simp
qed

text \<open>In every reachable state the regions are in ascending address order, contiguous,
  without overlap and of positive size. In dynamic mode they cover the usable memory; in
  static mode they cover the sixteen MiB that follow the operating system's part.\<close>

lemma reachable_layout:
  assumes "reachable st"
  shows "case memoryManager st of
           StaticManager mm \<Rightarrow>
             ascending (memory mm) \<and> contiguous (memory mm) \<and> nonOverlapping (memory mm) \<and>
             positiveSizes (memory mm) \<and>
             covers (memory mm) OS_MEMORY_SIZE (OS_MEMORY_SIZE + sum_list partitionSizes)
         | DynamicManager mm \<Rightarrow>
             ascending (memory mm) \<and> contiguous (memory mm) \<and> nonOverlapping (memory mm) \<and>
             positiveSizes (memory mm) \<and> covers (memory mm) OS_MEMORY_SIZE TOTAL_MEMORY"
  using reachable_invariant[OF assms]
  by (auto simp: invariant_def split: manager.splits dest: chain_layout)

lemma coalesce_layout:
  "chain lo mem hi \<Longrightarrow> chain lo (coalesce mem) hi"
  by (simp add: coalesce_mergeFree chain_mergeFree)

text \<open>
  Claim C1 fails in static mode. The constructor of \<^verbatim>\<open>StaticMemoryManager\<close> lays its
  five partitions, 16 MiB in total, from \<^verbatim>\<open>OS_MEMORY_SIZE\<close> on and ignores
  \<^verbatim>\<open>totalSize\<close>: in the state the program starts in when the page is in static mode,
  the partitions cover the addresses from 2 MiB to 18 MiB, not the usable memory from
  2 MiB to \<^verbatim>\<open>TOTAL_MEMORY\<close> (16 MiB), and the last partition lies beyond the end of the
  memory altogether. (The dynamic manager's constructor subtracts \<^verbatim>\<open>OS_MEMORY_SIZE\<close>
  from \<^verbatim>\<open>totalSize\<close>; the rest of the claim holds in every reachable state, by
  \<open>reachable_layout\<close>.)
\<close>

theorem static_partitions_exceed_memory:
  "reachable (setupInitialState staticConfig) \<and>
   memoryManager (setupInitialState staticConfig) = StaticManager staticFresh \<and>
   map address (memory staticFresh) = [2 * MiB, 3 * MiB, 5 * MiB, 9 * MiB, 17 * MiB] \<and>
   map bsize (memory staticFresh) = [1 * MiB, 2 * MiB, 4 * MiB, 8 * MiB, 1 * MiB] \<and>
   OS_MEMORY_SIZE = 2 * MiB \<and> TOTAL_MEMORY = 16 * MiB \<and>
   covers (memory staticFresh) OS_MEMORY_SIZE (18 * MiB) \<and>
   \<not> covers (memory staticFresh) OS_MEMORY_SIZE TOTAL_MEMORY \<and>
   extent (memory staticFresh ! 4) \<inter> {0 ..< TOTAL_MEMORY} = {}"
proof -
  have r: "reachable (setupInitialState staticConfig)" by (rule reachable.start)
  have m: "memoryManager (setupInitialState staticConfig) = StaticManager staticFresh"
    by (simp add: setupInitialState_def initialize_def staticConfig_def staticFresh_def)
  have a: "map address (memory staticFresh) = [2 * MiB, 3 * MiB, 5 * MiB, 9 * MiB, 17 * MiB]"
    and s: "map bsize (memory staticFresh) = [1 * MiB, 2 * MiB, 4 * MiB, 8 * MiB, 1 * MiB]"
    by (simp_all add: staticFresh_def newStaticMemoryManager_def partitionSizes_def
        OS_MEMORY_SIZE_def MiB_def)
  have c: "chain OS_MEMORY_SIZE (memory staticFresh) (18 * MiB)"
    by (simp add: staticFresh_def newStaticMemoryManager_def partitionSizes_def
        OS_MEMORY_SIZE_def MiB_def)
  from chain_layout[OF c] have cov: "covers (memory staticFresh) OS_MEMORY_SIZE (18 * MiB)"
    by simp
  have ne: "{OS_MEMORY_SIZE ..< 18 * MiB} \<noteq> {OS_MEMORY_SIZE ..< TOTAL_MEMORY}"
  proof
    assume "{OS_MEMORY_SIZE ..< 18 * MiB} = {OS_MEMORY_SIZE ..< TOTAL_MEMORY}"
    moreover have "17 * MiB \<in> {OS_MEMORY_SIZE ..< 18 * MiB}"
      by (simp add: OS_MEMORY_SIZE_def MiB_def)
    ultimately have "17 * MiB \<in> {OS_MEMORY_SIZE ..< TOTAL_MEMORY}" by simp
    then show False by (simp add: TOTAL_MEMORY_def MiB_def)
  qed
  from cov ne have ncov: "\<not> covers (memory staticFresh) OS_MEMORY_SIZE TOTAL_MEMORY"
    by (simp add: covers_def)
  have e: "extent (memory staticFresh ! 4) \<inter> {0 ..< TOTAL_MEMORY} = {}"
    by (auto simp: staticFresh_def newStaticMemoryManager_def partitionSizes_def
        OS_MEMORY_SIZE_def TOTAL_MEMORY_def extent_def)
  from r m a s cov ncov e show ?thesis
    by (simp add: OS_MEMORY_SIZE_def TOTAL_MEMORY_def MiB_def)
qed

section \<open>Allocating a process twice\<close>




lemma release_owned: "release p mem = Some mem' \<Longrightarrow> owned p mem' = tl (owned p mem)"
  by (induction mem arbitrary: mem') (auto simp: owned_def split: if_splits)





lemma owned_nonempty: "owned p mem \<noteq> [] \<longleftrightarrow> p \<in> set (ownerIds mem)"
  by (auto simp: owned_def set_ownerIds filter_empty_conv)





section \<open>Deallocation\<close>

lemma release_unowned:
  "(\<forall>b\<in>set mem. processId b \<noteq> Some p) \<Longrightarrow> release p mem = None"
  by (simp add: release_None set_ownerIds)

lemma mergeFree_ownerIds_subset: "set (ownerIds (mergeFree mem)) \<subseteq> set (ownerIds mem)"
  by (induction mem rule: mergeFree.induct) (auto split: option.splits)

lemma owned_distinct: "distinct (ownerIds mem) \<Longrightarrow> length (owned p mem) \<le> 1"
proof (induction mem)
  case Nil
  then show ?case by (simp add: owned_def)
next
  case (Cons b bs)
  show ?case
  proof (cases "processId b = Some p")
    case True
    with Cons.prems have "p \<notin> set (ownerIds bs)" by simp
    then have "owned p bs = []" using owned_nonempty[of p bs] by simp
    with True show ?thesis by (simp add: owned_def)
  next
    case False
    with Cons show ?thesis by (auto simp: owned_def split: option.splits)
  qed
qed

text \<open>After the release of the only region a process owns, the process owns none.\<close>

lemma release_last:
  "length (owned p mem) \<le> 1 \<Longrightarrow> release p mem = Some mem' \<Longrightarrow> p \<notin> set (ownerIds mem')"
proof -
  assume "length (owned p mem) \<le> 1" "release p mem = Some mem'"
  then have "owned p mem' = []" using release_owned[of p mem mem'] by (cases "owned p mem") auto
  then show ?thesis using owned_nonempty[of p mem'] by simp
qed

lemma deallocateStatic_twice:
  assumes "length (owned p (memory mm)) \<le> 1"
  shows "deallocateStatic (fst (deallocateStatic mm procs p)) (snd (deallocateStatic mm procs p)) p =
         deallocateStatic mm procs p"
proof (cases "release p (memory mm)")
  case None
  then show ?thesis by (simp add: deallocateStatic_def)
next
  case (Some mem')
  from release_last[OF assms Some] have "release p mem' = None" by (simp add: release_None)
  with Some show ?thesis by (simp add: deallocateStatic_def)
qed

lemma deallocateDynamic_twice:
  assumes "length (owned p (memory mm)) \<le> 1"
  shows "deallocateDynamic (fst (deallocateDynamic mm procs p)) (snd (deallocateDynamic mm procs p)) p =
         deallocateDynamic mm procs p"
proof (cases "release p (memory mm)")
  case None
  then show ?thesis by (simp add: deallocateDynamic_def)
next
  case (Some mem')
  from release_last[OF assms Some] have 1: "release p mem' = None" by (simp add: release_None)
  from release_last[OF assms Some] mergeFree_ownerIds_subset[of mem']
  have 2: "release p (mergeFree mem') = None"
    by (auto simp: release_None)
  from Some 1 2 show ?thesis by (simp add: deallocateDynamic_def coalesce_mergeFree)
qed

text \<open>
  Claim C8, as amended. In both modes \<^verbatim>\<open>deallocate(processId)\<close>, called when no region
  is owned by that id, returns the manager and the registry as they were; it has no error
  path, and the click handler reports success. Consequently, in every state in which the
  id owns at most one region, a second \<^verbatim>\<open>deallocate\<close> of the same id after the first
  changes nothing: two calls leave the same state as one. Every reachable state is such
  a state, for every id.
\<close>

theorem deallocate_idempotent:
  "((\<forall>part\<in>set (memory smm). processId part \<noteq> Some p) \<longrightarrow>
      deallocateStatic smm procs p = (smm, procs)) \<and>
   ((\<forall>b\<in>set (memory dmm). processId b \<noteq> Some p) \<longrightarrow>
      deallocateDynamic dmm procs p = (dmm, procs)) \<and>
   fst (handleProcessListClick st p DeallocateButton) = Success \<and>
   (length (owned p (memory smm)) \<le> 1 \<longrightarrow>
      deallocateStatic (fst (deallocateStatic smm procs p)) (snd (deallocateStatic smm procs p)) p =
      deallocateStatic smm procs p) \<and>
   (length (owned p (memory dmm)) \<le> 1 \<longrightarrow>
      deallocateDynamic (fst (deallocateDynamic dmm procs p)) (snd (deallocateDynamic dmm procs p)) p =
      deallocateDynamic dmm procs p) \<and>
   (reachable st \<longrightarrow>
      (case memoryManager st of
         StaticManager mm \<Rightarrow> length (owned p (memory mm)) \<le> 1
       | DynamicManager mm \<Rightarrow> length (owned p (memory mm)) \<le> 1) \<and>
      deallocate (fst (deallocate (memoryManager st) (processes st) p))
                 (snd (deallocate (memoryManager st) (processes st) p)) p =
      deallocate (memoryManager st) (processes st) p \<and>
      handleProcessListClick (snd (handleProcessListClick st p DeallocateButton)) p DeallocateButton =
      handleProcessListClick st p DeallocateButton)"
proof (intro conjI impI)
  show "deallocateStatic smm procs p = (smm, procs)"
    if "\<forall>part\<in>set (memory smm). processId part \<noteq> Some p"
    using that by (simp add: deallocateStatic_def release_unowned)
  show "deallocateDynamic dmm procs p = (dmm, procs)"
    if "\<forall>b\<in>set (memory dmm). processId b \<noteq> Some p"
    using that by (simp add: deallocateDynamic_def release_unowned)
  show "fst (handleProcessListClick st p DeallocateButton) = Success"
    by (simp add: handleProcessListClick_def split: prod.splits)
  show "deallocateStatic (fst (deallocateStatic smm procs p)) (snd (deallocateStatic smm procs p)) p =
      deallocateStatic smm procs p" if "length (owned p (memory smm)) \<le> 1"
    using that by (rule deallocateStatic_twice)
  show "deallocateDynamic (fst (deallocateDynamic dmm procs p)) (snd (deallocateDynamic dmm procs p)) p =
      deallocateDynamic dmm procs p" if "length (owned p (memory dmm)) \<le> 1"
    using that by (rule deallocateDynamic_twice)
next
  assume r: "reachable st"
  show one: "case memoryManager st of
         StaticManager mm \<Rightarrow> length (owned p (memory mm)) \<le> 1
       | DynamicManager mm \<Rightarrow> length (owned p (memory mm)) \<le> 1"
    using reachable_invariant[OF r]
    by (auto simp: invariant_def ownership_def split: manager.splits dest: owned_distinct[of _ p])
  show twice: "deallocate (fst (deallocate (memoryManager st) (processes st) p))
                 (snd (deallocate (memoryManager st) (processes st) p)) p =
      deallocate (memoryManager st) (processes st) p"
  proof (cases "memoryManager st")
    case (StaticManager mm)
    with one have "length (owned p (memory mm)) \<le> 1" by simp
    from deallocateStatic_twice[OF this, of "processes st"] StaticManager show ?thesis
      by (auto simp: deallocate_def split: prod.splits)
  next
    case (DynamicManager mm)
    with one have "length (owned p (memory mm)) \<le> 1" by simp
    from deallocateDynamic_twice[OF this, of "processes st"] DynamicManager show ?thesis
      by (auto simp: deallocate_def split: prod.splits)
  qed
  from twice show "handleProcessListClick (snd (handleProcessListClick st p DeallocateButton)) p
        DeallocateButton =
      handleProcessListClick st p DeallocateButton"
    by (cases "deallocate (memoryManager st) (processes st) p")
      (simp add: handleProcessListClick_def)
qed

theorem deallocate_idempotent_witness:
  "list_all (\<lambda>part. processId part \<noteq> Some 7) (memory staticFresh) \<and>
   deallocateStatic staticFresh defaultProcesses 7 = (staticFresh, defaultProcesses) \<and>
   list_all (\<lambda>b. processId b \<noteq> Some 0) (memory run3Manager) \<and>
   deallocateDynamic run3Manager (processes run3) 0 = (run3Manager, processes run3) \<and>
   length (owned 0 (memory onceManager)) \<le> 1 \<and>
   deallocateDynamic (fst (deallocateDynamic onceManager [allocatedProcess] 0))
       (snd (deallocateDynamic onceManager [allocatedProcess] 0)) 0 =
     deallocateDynamic onceManager [allocatedProcess] 0 \<and>
   memory (fst (deallocateDynamic onceManager [allocatedProcess] 0)) \<noteq> memory onceManager \<and>
   length (owned 7 (memory staticFresh)) \<le> 1 \<and>
   reachable run2 \<and>
   snd (handleProcessListClick run2 0 DeallocateButton) = run3 \<and>
   memoryManager run2 \<noteq> memoryManager run3 \<and>
   handleProcessListClick run3 0 DeallocateButton = (Success, run3)"
proof -
  have 1: "list_all (\<lambda>part. processId part \<noteq> Some 7) (memory staticFresh)"
    "length (owned 7 (memory staticFresh)) \<le> 1"
    by (simp_all add: staticFresh_def newStaticMemoryManager_def partitionSizes_def owned_def)
  have 2: "list_all (\<lambda>b. processId b \<noteq> Some 0) (memory run3Manager)"
    by (simp add: run3Manager_def)
  have 3: "memoryManager run2 \<noteq> memoryManager run3"
    by (simp add: run2_eq run3_eq run3Manager_def)
  have 4: "length (owned 0 (memory onceManager)) \<le> 1"
    by (simp add: onceManager_def owned_def)
  have 5: "memory (fst (deallocateDynamic onceManager [allocatedProcess] 0)) \<noteq> memory onceManager"
    by (simp add: onceManager_def deallocateDynamic_def coalesce_def coalesceLoop.simps)
  from deallocate_idempotent[of staticFresh 7 defaultProcesses run3Manager run2]
    deallocate_idempotent[of staticFresh 0 "processes run3" run3Manager run2]
    deallocate_idempotent[of staticFresh 0 "[allocatedProcess]" onceManager run2]
    1 2 3 4 5 reachable_run2
  show ?thesis by (simp add: list_all_iff run3_def prod_eq_iff)
qed

text \<open>
  Claim C8 as stated fails: it has two calls equal to one in every state. In a state
  where one id owns two regions, which \<^verbatim>\<open>allocate\<close> called for an allocated process
  produces, the first call frees the first region and the second call frees the other.
\<close>

theorem deallocate_twice_differs:
  "allocateDynamic onceManager allocatedProcess =
     (Success, twiceManager, allocatedProcess\<lparr>partitionId := Some 2621440\<rparr>) \<and>
   length (owned 0 (memory twiceManager)) = 2 \<and>
   memory (fst (deallocateDynamic twiceManager [allocatedProcess] 0)) =
     [\<lparr>address = 2097152, bsize = 524288, free = True, processId = None\<rparr>,
      \<lparr>address = 2621440, bsize = 524288, free = False, processId = Some 0\<rparr>,
      \<lparr>address = 3145728, bsize = 13631488, free = True, processId = None\<rparr>] \<and>
   memory (fst (deallocateDynamic (fst (deallocateDynamic twiceManager [allocatedProcess] 0))
                  (snd (deallocateDynamic twiceManager [allocatedProcess] 0)) 0)) =
     [\<lparr>address = 2097152, bsize = 14680064, free = True, processId = None\<rparr>] \<and>
   deallocateDynamic (fst (deallocateDynamic twiceManager [allocatedProcess] 0))
       (snd (deallocateDynamic twiceManager [allocatedProcess] 0)) 0 \<noteq>
     deallocateDynamic twiceManager [allocatedProcess] 0"
proof -
  have a: "allocateDynamic onceManager allocatedProcess =
     (Success, twiceManager, allocatedProcess\<lparr>partitionId := Some 2621440\<rparr>)"
    by (simp add: onceManager_def twiceManager_def allocatedProcess_def allocateDynamic_def
        findFit_def findFirstFit_def Let_def)
  have d: "deallocateDynamic twiceManager [allocatedProcess] 0 =
     (twiceManager\<lparr>memory :=
        [\<lparr>address = 2097152, bsize = 524288, free = True, processId = None\<rparr>,
         \<lparr>address = 2621440, bsize = 524288, free = False, processId = Some 0\<rparr>,
         \<lparr>address = 3145728, bsize = 13631488, free = True, processId = None\<rparr>]\<rparr>,
      [\<lparr>pid = 0, psize = Bytes 524288, allocated = False, partitionId = None\<rparr>])"
    by (simp add: twiceManager_def allocatedProcess_def deallocateDynamic_def clearProcess_def
        coalesce_def coalesceLoop.simps)
  have e: "memory (fst (deallocateDynamic
        (twiceManager\<lparr>memory :=
        [\<lparr>address = 2097152, bsize = 524288, free = True, processId = None\<rparr>,
         \<lparr>address = 2621440, bsize = 524288, free = False, processId = Some 0\<rparr>,
         \<lparr>address = 3145728, bsize = 13631488, free = True, processId = None\<rparr>]\<rparr>)
        [\<lparr>pid = 0, psize = Bytes 524288, allocated = False, partitionId = None\<rparr>] 0)) =
     [\<lparr>address = 2097152, bsize = 14680064, free = True, processId = None\<rparr>]"
    by (simp add: twiceManager_def deallocateDynamic_def clearProcess_def
        coalesce_def coalesceLoop.simps)
  have o: "length (owned 0 (memory twiceManager)) = 2"
    by (simp add: twiceManager_def owned_def)
  have ne: "deallocateDynamic (fst (deallocateDynamic twiceManager [allocatedProcess] 0))
       (snd (deallocateDynamic twiceManager [allocatedProcess] 0)) 0 \<noteq>
     deallocateDynamic twiceManager [allocatedProcess] 0"
  proof
    assume "deallocateDynamic (fst (deallocateDynamic twiceManager [allocatedProcess] 0))
       (snd (deallocateDynamic twiceManager [allocatedProcess] 0)) 0 =
     deallocateDynamic twiceManager [allocatedProcess] 0"
    then have "memory (fst (deallocateDynamic (fst (deallocateDynamic twiceManager [allocatedProcess] 0))
       (snd (deallocateDynamic twiceManager [allocatedProcess] 0)) 0)) =
       memory (fst (deallocateDynamic twiceManager [allocatedProcess] 0))" by simp
    then show False unfolding d fst_conv snd_conv e by simp
  qed
  from a d e o ne show ?thesis by simp
qed

subsection \<open>What coalescing keeps and what it merges\<close>

lemma mergeFree_sum: "sum_list (map bsize (mergeFree mem)) = sum_list (map bsize mem)"
  by (induction mem rule: mergeFree.induct) auto

lemma mergeFree_occupied:
  "filter (\<lambda>b. \<not> free b) (mergeFree mem) = filter (\<lambda>b. \<not> free b) mem"
  by (induction mem rule: mergeFree.induct) auto

lemma mergeFree_run:
  "free a \<Longrightarrow> list_all free rest \<Longrightarrow>
   mergeFree (a # rest) = [a\<lparr>bsize := bsize a + sum_list (map bsize rest)\<rparr>]"
  by (induction rest arbitrary: a) (auto simp: add.assoc)

lemma mergeFree_single:
  "ys = [] \<or> \<not> free a \<or> \<not> free (hd ys) \<Longrightarrow> mergeFree (a # ys) = a # mergeFree ys"
  by (cases ys) auto

lemma mergeFree_append:
  "xs = [] \<or> ys = [] \<or> \<not> free (last xs) \<or> \<not> free (hd ys) \<Longrightarrow>
   mergeFree (xs @ ys) = mergeFree xs @ mergeFree ys"
proof (induction xs rule: mergeFree.induct)
  case (1 a b rest)
  then show ?case by (auto split: if_splits)
qed (auto simp: mergeFree_single)

lemma chain_positive: "chain lo mem hi \<Longrightarrow> i < length mem \<Longrightarrow> 0 < bsize (mem ! i)"
proof (induction mem arbitrary: lo i)
  case Nil
  then show ?case by simp
next
  case (Cons b bs)
  then show ?case by (cases i) auto
qed

lemma chain_next:
  "chain lo mem hi \<Longrightarrow> i + 1 < length mem \<Longrightarrow>
   address (mem ! i) + bsize (mem ! i) = address (mem ! (i + 1))"
proof (induction mem arbitrary: lo i)
  case Nil
  then show ?case by simp
next
  case (Cons b bs)
  then show ?case by (cases i; cases bs) auto
qed

text \<open>
  In a list laid out as a chain the block that starts where block \<open>i\<close> ends is the next
  block of the list: address-adjacent and list-adjacent are the same thing.
\<close>

lemma chain_adjacent:
  assumes c: "chain lo mem hi" and i: "i < length mem" and j: "j < length mem"
    and a: "address (mem ! i) + bsize (mem ! i) = address (mem ! j)"
  shows "j = i + 1"
proof -
  have asc: "sorted_wrt (\<lambda>a b. address a < address b) mem"
    using chain_layout[OF c] by (simp add: ascending_def)
  have less: "address (mem ! m) < address (mem ! n)" if "m < n" "n < length mem" for m n
    using asc that by (simp add: sorted_wrt_iff_nth_less)
  have pos: "0 < bsize (mem ! i)" using chain_positive[OF c i] .
  show ?thesis
  proof (rule ccontr)
    assume n: "j \<noteq> i + 1"
    show False
    proof (cases "j \<le> i")
      case True
      then have "address (mem ! j) \<le> address (mem ! i)"
        using less[of j i] i by (cases "j = i") auto
      with a pos show False by simp
    next
      case False
      with n have lt: "i + 1 < j" by simp
      then have "i + 1 < length mem" using j by simp
      from chain_next[OF c this] less[OF lt j] a show False by simp
    qed
  qed
qed

text \<open>
  Claim C5. For every block list \<open>mem\<close>, after \<^verbatim>\<open>coalesce\<close>:

    \<^item> no two neighbours of the list are both free, however many adjacent free blocks
      there were before;
    \<^item> running \<^verbatim>\<open>coalesce\<close> on the result changes nothing;
    \<^item> nothing is lost or invented: the sizes of the blocks add up to what they added up
      to before, and the occupied blocks are the same blocks, in the same order;
    \<^item> a cascade is merged into one block: a maximal run of free blocks (of any length,
      with no free block right before or right after it) becomes the single block that
      is the first block of the run with the sizes of the whole run added up, and what
      precedes and what follows the run is coalesced on its own;
    \<^item> when the list is laid out without gaps from \<open>lo\<close> to \<open>hi\<close> (each block starts where
      the one before it ends, as in every state of the dynamic manager), the result is
      laid out without gaps from \<open>lo\<close> to \<open>hi\<close> as well, and no two blocks of which one
      starts at the address where the other ends are both free.
\<close>

theorem coalesce_closure:
  "(\<forall>k. k + 1 < length (coalesce mem) \<longrightarrow>
       \<not> (free (coalesce mem ! k) \<and> free (coalesce mem ! (k + 1)))) \<and>
   coalesce (coalesce mem) = coalesce mem \<and>
   sum_list (map bsize (coalesce mem)) = sum_list (map bsize mem) \<and>
   filter (\<lambda>b. \<not> free b) (coalesce mem) = filter (\<lambda>b. \<not> free b) mem \<and>
   (mem = pre @ run @ post \<and> run \<noteq> [] \<and> list_all free run \<and>
    (pre = [] \<or> \<not> free (last pre)) \<and> (post = [] \<or> \<not> free (hd post)) \<longrightarrow>
      coalesce mem =
        coalesce pre @ [(hd run)\<lparr>bsize := sum_list (map bsize run)\<rparr>] @ coalesce post) \<and>
   (chain lo mem hi \<longrightarrow>
      chain lo (coalesce mem) hi \<and>
      (\<forall>i j. i < length (coalesce mem) \<and> j < length (coalesce mem) \<and>
             address (coalesce mem ! i) + bsize (coalesce mem ! i) =
               address (coalesce mem ! j) \<longrightarrow>
             \<not> (free (coalesce mem ! i) \<and> free (coalesce mem ! j))))"
proof -
  have naf: "noAdjacentFree (mergeFree mem)" by (rule noAdjacentFree_mergeFree)
  have nb: "\<forall>k. k + 1 < length (mergeFree mem) \<longrightarrow>
       \<not> (free (mergeFree mem ! k) \<and> free (mergeFree mem ! (k + 1)))"
    using naf by (simp add: noAdjacentFree_nth)
  have idem: "mergeFree (mergeFree mem) = mergeFree mem"
    using naf by (rule mergeFree_id)
  have cascade: "mergeFree mem =
        mergeFree pre @ [(hd run)\<lparr>bsize := sum_list (map bsize run)\<rparr>] @ mergeFree post"
    if m: "mem = pre @ run @ post" and r: "run \<noteq> []" "list_all free run"
      and p: "pre = [] \<or> \<not> free (last pre)" and q: "post = [] \<or> \<not> free (hd post)"
  proof -
    obtain a rest where run: "run = a # rest" using r(1) by (cases run) auto
    have one: "mergeFree run = [(hd run)\<lparr>bsize := sum_list (map bsize run)\<rparr>]"
      using r(2) by (simp add: run mergeFree_run)
    have "mergeFree (run @ post) = mergeFree run @ mergeFree post"
      using q by (intro mergeFree_append) auto
    moreover have "mergeFree (pre @ (run @ post)) = mergeFree pre @ mergeFree (run @ post)"
      using p by (intro mergeFree_append) auto
    ultimately show ?thesis by (simp add: m one)
  qed
  have adj: "\<not> (free (mergeFree mem ! i) \<and> free (mergeFree mem ! j))"
    if c: "chain lo mem hi" and i: "i < length (mergeFree mem)" and j: "j < length (mergeFree mem)"
      and a: "address (mergeFree mem ! i) + bsize (mergeFree mem ! i) =
              address (mergeFree mem ! j)"
    for i j
  proof -
    have "j = i + 1" using chain_adjacent[OF chain_mergeFree[OF c] i j a] .
    with nb j show ?thesis by simp
  qed
  show ?thesis
    unfolding coalesce_mergeFree
    using nb idem mergeFree_sum[of mem] mergeFree_occupied[of mem] cascade adj
      chain_mergeFree[of lo mem hi]
    by blast
qed

theorem coalesce_closure_witness:
  "coalesce fragmented =
     [\<lparr>address = 2097152, bsize = 1048576, free = False, processId = Some 0\<rparr>,
      \<lparr>address = 3145728, bsize = 4194304, free = True, processId = None\<rparr>,
      \<lparr>address = 7340032, bsize = 1048576, free = False, processId = Some 3\<rparr>,
      \<lparr>address = 8388608, bsize = 8388608, free = True, processId = None\<rparr>] \<and>
   1 + 1 < length (coalesce fragmented) \<and>
   \<not> (free (coalesce fragmented ! 1) \<and> free (coalesce fragmented ! (1 + 1))) \<and>
   coalesce (coalesce fragmented) = coalesce fragmented \<and>
   sum_list (map bsize fragmented) = 14680064 \<and>
   sum_list (map bsize (coalesce fragmented)) = 14680064 \<and>
   filter (\<lambda>b. \<not> free b) (coalesce fragmented) =
     [\<lparr>address = 2097152, bsize = 1048576, free = False, processId = Some 0\<rparr>,
      \<lparr>address = 7340032, bsize = 1048576, free = False, processId = Some 3\<rparr>] \<and>
   fragmented = take 1 fragmented @ take 3 (drop 1 fragmented) @ drop 4 fragmented \<and>
   take 3 (drop 1 fragmented) \<noteq> [] \<and>
   list_all free (take 3 (drop 1 fragmented)) \<and>
   \<not> free (last (take 1 fragmented)) \<and>
   \<not> free (hd (drop 4 fragmented)) \<and>
   coalesce fragmented =
     coalesce (take 1 fragmented) @
     [\<lparr>address = 3145728, bsize = 4194304, free = True, processId = None\<rparr>] @
     coalesce (drop 4 fragmented) \<and>
   chain 2097152 fragmented 16777216 \<and>
   chain 2097152 (coalesce fragmented) 16777216 \<and>
   1 < length (coalesce fragmented) \<and> 2 < length (coalesce fragmented) \<and>
   address (coalesce fragmented ! 1) + bsize (coalesce fragmented ! 1) =
     address (coalesce fragmented ! 2) \<and>
   \<not> (free (coalesce fragmented ! 1) \<and> free (coalesce fragmented ! 2))"
proof -
  let ?pre = "take 1 fragmented" and ?run = "take 3 (drop 1 fragmented)"
    and ?post = "drop 4 fragmented"
  note closure = coalesce_closure[where mem = fragmented and pre = ?pre and run = ?run
      and post = ?post and lo = 2097152 and hi = 16777216]
  have c: "coalesce fragmented =
     [\<lparr>address = 2097152, bsize = 1048576, free = False, processId = Some 0\<rparr>,
      \<lparr>address = 3145728, bsize = 4194304, free = True, processId = None\<rparr>,
      \<lparr>address = 7340032, bsize = 1048576, free = False, processId = Some 3\<rparr>,
      \<lparr>address = 8388608, bsize = 8388608, free = True, processId = None\<rparr>]"
    by (simp add: coalesce_def fragmented_def coalesceLoop.simps)
  have run: "?run =
     [\<lparr>address = 3145728, bsize = 1048576, free = True, processId = None\<rparr>,
      \<lparr>address = 4194304, bsize = 2097152, free = True, processId = None\<rparr>,
      \<lparr>address = 6291456, bsize = 1048576, free = True, processId = None\<rparr>]"
    by (simp add: fragmented_def)
  have k: "1 + 1 < length (coalesce fragmented)"
    by (simp add: c)
  have split: "fragmented = ?pre @ ?run @ ?post"
    by (simp add: fragmented_def)
  have nonempty: "?run \<noteq> []"
    unfolding run by simp
  have allfree: "list_all free ?run"
    unfolding run by simp
  have before: "\<not> free (last ?pre)"
    by (simp add: fragmented_def)
  have after: "\<not> free (hd ?post)"
    by (simp add: fragmented_def)
  have ch: "chain 2097152 fragmented 16777216"
    by (simp add: fragmented_def)
  have total: "sum_list (map bsize fragmented) = 14680064"
    by (simp add: fragmented_def)
  have i: "1 < length (coalesce fragmented)" and j: "2 < length (coalesce fragmented)"
    by (simp_all add: c)
  have a: "address (coalesce fragmented ! 1) + bsize (coalesce fragmented ! 1) =
     address (coalesce fragmented ! 2)"
    by (simp add: c)
  have neighbours: "\<not> (free (coalesce fragmented ! 1) \<and> free (coalesce fragmented ! (1 + 1)))"
    using closure k by blast
  have idem: "coalesce (coalesce fragmented) = coalesce fragmented"
    using closure by blast
  have sum: "sum_list (map bsize (coalesce fragmented)) = 14680064"
    using closure total by simp
  have occupied: "filter (\<lambda>b. \<not> free b) (coalesce fragmented) =
     [\<lparr>address = 2097152, bsize = 1048576, free = False, processId = Some 0\<rparr>,
      \<lparr>address = 7340032, bsize = 1048576, free = False, processId = Some 3\<rparr>]"
  proof -
    have "filter (\<lambda>b. \<not> free b) (coalesce fragmented) = filter (\<lambda>b. \<not> free b) fragmented"
      using closure by blast
    then show ?thesis by (simp add: fragmented_def)
  qed
  have cascade: "coalesce fragmented =
     coalesce ?pre @
     [\<lparr>address = 3145728, bsize = 4194304, free = True, processId = None\<rparr>] @
     coalesce ?post"
  proof -
    have "coalesce fragmented =
        coalesce ?pre @ [(hd ?run)\<lparr>bsize := sum_list (map bsize ?run)\<rparr>] @ coalesce ?post"
      using closure split nonempty allfree before after by blast
    moreover have "(hd ?run)\<lparr>bsize := sum_list (map bsize ?run)\<rparr> =
        \<lparr>address = 3145728, bsize = 4194304, free = True, processId = None\<rparr>"
      unfolding run by simp
    ultimately show ?thesis by simp
  qed
  have layout: "chain 2097152 (coalesce fragmented) 16777216"
    using closure ch by blast
  have adjacent: "\<not> (free (coalesce fragmented ! 1) \<and> free (coalesce fragmented ! 2))"
    using closure ch i j a by blast
  show ?thesis
    by (intro conjI; fact)
qed

end
